theory Spec2Isabelle
  imports Complex_Main
begin

section \<open>Numbers\<close>

text \<open>
  The module computes with JavaScript numbers. The claims verified here are stated over
  exact arithmetic, so a number is a real or \<open>NaN\<close>. Every arithmetic operation with a
  \<open>NaN\<close> operand is \<open>NaN\<close>, and every comparison with a \<open>NaN\<close> operand is false, as in
  JavaScript. The infinities and the signed zero of IEEE 754 have no counterpart: a
  quotient by zero, which JavaScript gives as an infinity or as \<open>NaN\<close>, is \<open>NaN\<close> here.
  The reading \<open>undefined\<close> of an array beyond its length only ever flows into arithmetic
  and comparisons in this module, where it behaves as \<open>NaN\<close>; it is \<open>NaN\<close> in the model.
\<close>

datatype number = NaN | Fin real

instantiation number :: "{zero, plus, minus, times, inverse, abs, ord}"
begin

definition zero_number :: number where
  "zero_number = Fin 0"

fun plus_number :: "number \<Rightarrow> number \<Rightarrow> number" where
  "plus_number (Fin a) (Fin b) = Fin (a + b)"
| "plus_number _ _ = NaN"

fun minus_number :: "number \<Rightarrow> number \<Rightarrow> number" where
  "minus_number (Fin a) (Fin b) = Fin (a - b)"
| "minus_number _ _ = NaN"

fun times_number :: "number \<Rightarrow> number \<Rightarrow> number" where
  "times_number (Fin a) (Fin b) = Fin (a * b)"
| "times_number _ _ = NaN"

fun divide_number :: "number \<Rightarrow> number \<Rightarrow> number" where
  "divide_number (Fin a) (Fin b) = (if b = 0 then NaN else Fin (a / b))"
| "divide_number _ _ = NaN"

fun inverse_number :: "number \<Rightarrow> number" where
  "inverse_number (Fin a) = (if a = 0 then NaN else Fin (1 / a))"
| "inverse_number NaN = NaN"

fun abs_number :: "number \<Rightarrow> number" where
  "abs_number (Fin a) = Fin \<bar>a\<bar>"
| "abs_number NaN = NaN"

fun less_number :: "number \<Rightarrow> number \<Rightarrow> bool" where
  "less_number (Fin a) (Fin b) = (a < b)"
| "less_number _ _ = False"

fun less_eq_number :: "number \<Rightarrow> number \<Rightarrow> bool" where
  "less_eq_number (Fin a) (Fin b) = (a \<le> b)"
| "less_eq_number _ _ = False"

instance ..

end

text \<open>The operator \<open>==\<close> of JavaScript: \<open>NaN\<close> equals nothing, itself included.\<close>

fun num_eq :: "number \<Rightarrow> number \<Rightarrow> bool" where
  "num_eq (Fin a) (Fin b) = (a = b)"
| "num_eq _ _ = False"

text \<open>\<open>Number.EPSILON\<close>, two to the power -52.\<close>

definition EPSILON :: number where
  "EPSILON = Fin (1 / 2 ^ 52)"

text \<open>
  A \<open>Float64Array\<close> is a list of numbers; \<open>new Float64Array(n)\<close> is \<open>replicate n 0\<close>.
  Reading at an index that is not below the length gives \<open>undefined\<close>.
\<close>

definition elem :: "number list \<Rightarrow> nat \<Rightarrow> number" where
  "elem a i = (if i < length a then a ! i else NaN)"

definition elem_int :: "number list \<Rightarrow> int \<Rightarrow> number" where
  "elem_int a i = (if 0 \<le> i then elem a (nat i) else NaN)"

section \<open>Errors\<close>

text \<open>
  The source throws \<open>Error\<close> objects that differ in their message; the specification
  names them. \<open>"Dimension mismatch..."\<close> is \<open>DimensionMismatchError\<close>,
  \<open>"Number of points is too small."\<close> and \<open>"Not enough points."\<close> are
  \<open>InsufficientPointsError\<close>, \<open>"Not enough knots."\<close> is \<open>InsufficientKnotsError\<close>,
  \<open>"Non-monotonic sequence exception."\<close> is \<open>OrderError\<close>,
  \<open>"Empty polynomials coefficients array"\<close> is \<open>EmptyCoefficientsError\<close> and
  \<open>"Invalid number encountered in binary search."\<close> is \<open>InvalidValueError\<close>.
\<close>

datatype error =
    DimensionMismatchError
  | InsufficientPointsError
  | InsufficientKnotsError
  | OrderError
  | EmptyCoefficientsError
  | InvalidValueError

section \<open>Utility functions\<close>

text \<open>
  \<open>MathArrays_checkOrder\<close>: \<open>previous\<close> starts as \<open>val[0]\<close> and the loop visits the
  elements at the indices 1 to \<open>val.length - 1\<close> in order.
\<close>

fun checkOrder_loop :: "number \<Rightarrow> number list \<Rightarrow> error + unit" where
  "checkOrder_loop previous [] = Inr ()"
| "checkOrder_loop previous (v # vs) =
     (if v \<le> previous then Inl OrderError else checkOrder_loop v vs)"

definition MathArrays_checkOrder :: "number list \<Rightarrow> error + unit" where
  "MathArrays_checkOrder val = checkOrder_loop (elem val 0) (drop 1 val)"

text \<open>
  \<open>Arrays_binarySearch\<close>. The bounds \<open>low\<close> and \<open>high\<close> are integers (\<open>high\<close> starts at
  -1 for the empty array). \<open>(low + high) >>> 1\<close> converts the sum to an unsigned 32-bit
  integer and shifts it. With that conversion the loop need not end on an array of
  more than \<open>2 ^ 31\<close> elements, so the loop is a partial function: \<open>None\<close> is a run that
  does not return.
\<close>

partial_function (option) binarySearch_loop ::
  "number list \<Rightarrow> number \<Rightarrow> int \<Rightarrow> int \<Rightarrow> (error + int) option" where
  "binarySearch_loop a key low high =
     (if low \<le> high then
        (let mid = ((low + high) mod 2 ^ 32) div 2;
             midVal = elem_int a mid
         in if midVal < key then binarySearch_loop a key (mid + 1) high
            else if key < midVal then binarySearch_loop a key low (mid - 1)
            else if num_eq midVal key then Some (Inr mid)
            else Some (Inl InvalidValueError))
      else Some (Inr (- (low + 1))))"

declare binarySearch_loop.simps [code]

definition Arrays_binarySearch :: "number list \<Rightarrow> number \<Rightarrow> (error + int) option" where
  "Arrays_binarySearch a key = binarySearch_loop a key 0 (int (length a) - 1)"

section \<open>Polynomial functions\<close>

text \<open>
  \<open>createPolynomialFunction\<close>: the \<open>while\<close> loop lowers \<open>n\<close> past the trailing zero
  coefficients, and the returned closure evaluates by Horner's method, \<open>i\<close> running from
  \<open>n - 2\<close> down to 0. \<open>horner_loop c2 x v k\<close> is the loop with \<open>k = i + 1\<close> rounds left.
\<close>

fun trim_loop :: "number list \<Rightarrow> nat \<Rightarrow> nat" where
  "trim_loop c2 0 = 0"
| "trim_loop c2 (Suc k) =
     (if Suc k > 1 \<and> num_eq (elem c2 (Suc k - 1)) 0 then trim_loop c2 k else Suc k)"

fun horner_loop :: "number list \<Rightarrow> number \<Rightarrow> number \<Rightarrow> nat \<Rightarrow> number" where
  "horner_loop c2 x v 0 = v"
| "horner_loop c2 x v (Suc i) = horner_loop c2 x (x * v + elem c2 i) i"

text \<open>The returned closure, over the copy \<open>c2\<close> and the lowered \<open>n\<close>.\<close>

definition polynomialEval :: "number list \<Rightarrow> nat \<Rightarrow> number \<Rightarrow> number" where
  "polynomialEval c2 n x = (let v = elem c2 (n - 1) in horner_loop c2 x v (n - 1))"

definition createPolynomialFunction :: "number list \<Rightarrow> error + (number \<Rightarrow> number)" where
  "createPolynomialFunction c =
     (let c2 = c; n = length c2
      in if n = 0 then Inl EmptyCoefficientsError
         else (let n = trim_loop c2 n
               in Inr (polynomialEval c2 n)))"

text \<open>
  The constructors fill one \<open>coefficients\<close> buffer per segment and pass it to
  \<open>createPolynomialFunction\<close>, which copies it; \<open>createPolynomials\<close> is that loop over
  the successive contents of the buffer.
\<close>

fun createPolynomials :: "number list list \<Rightarrow> error + (number \<Rightarrow> number) list" where
  "createPolynomials [] = Inr []"
| "createPolynomials (c # cs) =
     (case createPolynomialFunction c of
        Inl e \<Rightarrow> Inl e
      | Inr p \<Rightarrow> (case createPolynomials cs of
                   Inl e \<Rightarrow> Inl e
                 | Inr ps \<Rightarrow> Inr (p # ps)))"

section \<open>Polynomial spline functions\<close>

text \<open>
  An evaluator returns a number, throws, or (see the binary search) does not return.
  The closure of \<open>createPolynomialSplineFunction\<close> is \<open>splineEval knots2 polynomials\<close>.
  It exists only when \<open>polynomials\<close> has \<open>knots2.length - 1 \<ge> 1\<close> elements, so the
  index \<open>i\<close>, clamped to \<open>[0, polynomials.length - 1]\<close>, is within \<open>polynomials\<close>.
\<close>

type_synonym evaluator = "number \<Rightarrow> (error + number) option"

definition splineEval :: "number list \<Rightarrow> (number \<Rightarrow> number) list \<Rightarrow> evaluator" where
  "splineEval knots2 polynomials x =
     (case Arrays_binarySearch knots2 x of
        None \<Rightarrow> None
      | Some (Inl e) \<Rightarrow> Some (Inl e)
      | Some (Inr i0) \<Rightarrow>
          (let i1 = (if i0 < 0 then - i0 - 2 else i0);
               i = max 0 (min i1 (int (length polynomials) - 1))
           in Some (Inr ((polynomials ! nat i) (x - elem_int knots2 i)))))"

definition createPolynomialSplineFunction ::
  "number list \<Rightarrow> (number \<Rightarrow> number) list \<Rightarrow> error + evaluator" where
  "createPolynomialSplineFunction knots polynomials =
     (let knots2 = knots
      in if length knots2 < 2 then Inl InsufficientKnotsError
         else if int (length knots2) - 1 \<noteq> int (length polynomials)
           then Inl DimensionMismatchError
         else (case MathArrays_checkOrder knots2 of
                 Inl e \<Rightarrow> Inl e
               | Inr _ \<Rightarrow> Inr (splineEval knots2 polynomials)))"

section \<open>Linear interpolation\<close>

definition createLinearInterpolator :: "number list \<Rightarrow> number list \<Rightarrow> error + evaluator" where
  "createLinearInterpolator x y =
     (if length x \<noteq> length y then Inl DimensionMismatchError
      else if length x < 2 then Inl InsufficientPointsError
      else (let n = length x - 1
            in case MathArrays_checkOrder x of
                 Inl e \<Rightarrow> Inl e
               | Inr _ \<Rightarrow>
                   (let m = map (\<lambda>i. (elem y (i + 1) - elem y i) / (elem x (i + 1) - elem x i)) [0..<n]
                    in case createPolynomials (map (\<lambda>i. [elem y i, elem m i]) [0..<n]) of
                         Inl e \<Rightarrow> Inl e
                       | Inr polynomials \<Rightarrow> createPolynomialSplineFunction x polynomials)))"

section \<open>Nearest neighbour interpolation\<close>

text \<open>The closure returned for \<open>n \<ge> 2\<close>.\<close>

definition nearestNeighborEval :: "number list \<Rightarrow> number list \<Rightarrow> nat \<Rightarrow> evaluator" where
  "nearestNeighborEval xvals2 yvals2 n x =
     (case Arrays_binarySearch xvals2 x of
        None \<Rightarrow> None
      | Some (Inl e) \<Rightarrow> Some (Inl e)
      | Some (Inr i0) \<Rightarrow>
          (if 0 \<le> i0 then Some (Inr (elem_int yvals2 i0))
           else (let i = - i0 - 1
                 in if i = 0 then Some (Inr (elem yvals2 0))
                    else if int n \<le> i then Some (Inr (elem yvals2 (n - 1)))
                    else (let d = x - elem_int xvals2 (i - 1);
                              w = elem_int xvals2 i - elem_int xvals2 (i - 1)
                          in Some (Inr (if d + d < w then elem_int yvals2 (i - 1)
                                        else elem_int yvals2 i))))))"

definition createNearestNeighborInterpolator ::
  "number list \<Rightarrow> number list \<Rightarrow> error + evaluator" where
  "createNearestNeighborInterpolator xvals yvals =
     (let xvals2 = xvals; yvals2 = yvals; n = length xvals2
      in if n \<noteq> length yvals2 then Inl DimensionMismatchError
         else if n = 0 then Inr (\<lambda>_. Some (Inr NaN))
         else if n = 1 then Inr (\<lambda>_. Some (Inr (elem yvals2 0)))
         else (case MathArrays_checkOrder xvals2 of
                 Inl e \<Rightarrow> Inl e
               | Inr _ \<Rightarrow> Inr (nearestNeighborEval xvals2 yvals2 n)))"

section \<open>Akima spline interpolation\<close>

definition differentiateThreePoint ::
  "number list \<Rightarrow> number list \<Rightarrow> nat \<Rightarrow> nat \<Rightarrow> nat \<Rightarrow> nat \<Rightarrow> number" where
  "differentiateThreePoint xvals yvals indexOfDifferentiation indexOfFirstSample
       indexOfSecondsample indexOfThirdSample =
     (let x0 = elem yvals indexOfFirstSample;
          x1 = elem yvals indexOfSecondsample;
          x2 = elem yvals indexOfThirdSample;
          t = elem xvals indexOfDifferentiation - elem xvals indexOfFirstSample;
          t1 = elem xvals indexOfSecondsample - elem xvals indexOfFirstSample;
          t2 = elem xvals indexOfThirdSample - elem xvals indexOfFirstSample;
          a = (x2 - x0 - (t2 / t1 * (x1 - x0))) / (t2 * t2 - t1 * t2);
          b = (x1 - x0 - a * t1 * t1) / t1
      in (Fin 2 * a * t) + b)"

definition hermiteCoefficients ::
  "number list \<Rightarrow> number list \<Rightarrow> number list \<Rightarrow> nat \<Rightarrow> number list" where
  "hermiteCoefficients xvals yvals firstDerivatives i =
     (let w = elem xvals (i + 1) - elem xvals i;
          w2 = w * w;
          yv = elem yvals i;
          yvP = elem yvals (i + 1);
          fd = elem firstDerivatives i;
          fdP = elem firstDerivatives (i + 1)
      in [yv,
          elem firstDerivatives i,
          (Fin 3 * (yvP - yv) / w - Fin 2 * fd - fdP) / w,
          (Fin 2 * (yv - yvP) / w + fd + fdP) / w2])"

definition interpolateHermiteSorted ::
  "number list \<Rightarrow> number list \<Rightarrow> number list \<Rightarrow> error + evaluator" where
  "interpolateHermiteSorted xvals yvals firstDerivatives =
     (let n = length xvals
      in if n \<noteq> length yvals \<or> n \<noteq> length firstDerivatives then Inl DimensionMismatchError
         else if n < 2 then Inl InsufficientPointsError
         else (case createPolynomials
                      (map (hermiteCoefficients xvals yvals firstDerivatives) [0..<n - 1]) of
                 Inl e \<Rightarrow> Inl e
               | Inr polynomials \<Rightarrow> createPolynomialSplineFunction xvals polynomials))"

text \<open>The body of the loop over the interior indices \<open>2 \<le> i < n - 2\<close>.\<close>

definition akimaDerivative ::
  "number list \<Rightarrow> number list \<Rightarrow> number list \<Rightarrow> nat \<Rightarrow> number" where
  "akimaDerivative xvals differences weights i =
     (let wP = elem weights (i + 1);
          wM = elem weights (i - 1)
      in if \<bar>wP\<bar> < EPSILON \<and> \<bar>wM\<bar> < EPSILON then
           (let xv = elem xvals i;
                xvP = elem xvals (i + 1);
                xvM = elem xvals (i - 1)
            in (((xvP - xv) * elem differences (i - 1)) + ((xv - xvM) * elem differences i))
                 / (xvP - xvM))
         else ((wP * elem differences (i - 1)) + (wM * elem differences i)) / (wP + wM))"

text \<open>
  The arrays \<open>differences\<close> and \<open>weights\<close>, both of length \<open>n - 1\<close>; the loop that fills
  \<open>weights\<close> starts at index 1 and leaves \<open>weights[0]\<close> at its initial 0.
\<close>

definition akimaDifferences :: "number list \<Rightarrow> number list \<Rightarrow> number list" where
  "akimaDifferences xvals yvals =
     map (\<lambda>i. (elem yvals (i + 1) - elem yvals i) / (elem xvals (i + 1) - elem xvals i))
       [0..<length xvals - 1]"

definition akimaWeights :: "number list \<Rightarrow> nat \<Rightarrow> number list" where
  "akimaWeights differences n =
     fold (\<lambda>i weights. weights[i := \<bar>elem differences i - elem differences (i - 1)\<bar>])
       [1..<n - 1] (replicate (n - 1) 0)"

definition akimaFirstDerivatives :: "number list \<Rightarrow> number list \<Rightarrow> number list" where
  "akimaFirstDerivatives xvals yvals =
     (let n = length xvals;
          differences = akimaDifferences xvals yvals;
          weights = akimaWeights differences n;
          fd0 = fold (\<lambda>i fd. fd[i := akimaDerivative xvals differences weights i])
                  [2..<n - 2] (replicate n 0);
          fd1 = fd0[0 := differentiateThreePoint xvals yvals 0 0 1 2];
          fd2 = fd1[1 := differentiateThreePoint xvals yvals 1 0 1 2];
          fd3 = fd2[n - 2 := differentiateThreePoint xvals yvals (n - 2) (n - 3) (n - 2) (n - 1)]
      in fd3[n - 1 := differentiateThreePoint xvals yvals (n - 1) (n - 3) (n - 2) (n - 1)])"

definition createAkimaSplineInterpolator ::
  "number list \<Rightarrow> number list \<Rightarrow> error + evaluator" where
  "createAkimaSplineInterpolator xvals yvals =
     (let n = length xvals
      in if n \<noteq> length yvals then Inl DimensionMismatchError
         else if n < 5 then Inl InsufficientPointsError
         else (case MathArrays_checkOrder xvals of
                 Inl e \<Rightarrow> Inl e
               | Inr _ \<Rightarrow>
                   interpolateHermiteSorted xvals yvals (akimaFirstDerivatives xvals yvals)))"

section \<open>Natural cubic spline interpolation\<close>

text \<open>
  \<open>computeCubicPolyCoefficients\<close>. \<open>sweep_step\<close> is the body of the forward loop
  (\<open>1 \<le> i < n\<close>) on the arrays \<open>mu\<close> and \<open>z\<close>, \<open>back_step\<close> the body of the backward loop
  (\<open>j\<close> from \<open>n - 1\<close> down to 0) on \<open>b\<close>, \<open>c\<close> and \<open>d\<close>. A write to a typed array at an
  index beyond its length is ignored, as \<open>list_update\<close> is.
\<close>

definition sweep_step ::
  "number list \<Rightarrow> number list \<Rightarrow> number list \<Rightarrow> nat
     \<Rightarrow> number list \<times> number list \<Rightarrow> number list \<times> number list" where
  "sweep_step x y h i = (\<lambda>(mu, z).
     (let g = Fin 2 * (elem x (i + 1) - elem x (i - 1)) - elem h (i - 1) * elem mu (i - 1);
          mu1 = mu[i := elem h i / g];
          z1 = z[i := (Fin 3 * (elem y (i + 1) * elem h (i - 1)
                                 - elem y i * (elem x (i + 1) - elem x (i - 1))
                                 + elem y (i - 1) * elem h i)
                         / (elem h (i - 1) * elem h i)
                       - elem h (i - 1) * elem z (i - 1)) / g]
      in (mu1, z1)))"

definition back_step ::
  "number list \<Rightarrow> number list \<Rightarrow> number list \<Rightarrow> number list \<Rightarrow> nat
     \<Rightarrow> number list \<times> number list \<times> number list
     \<Rightarrow> number list \<times> number list \<times> number list" where
  "back_step y h mu z j = (\<lambda>(b, c, d).
     (let c1 = c[j := elem z j - elem mu j * elem c (j + 1)];
          b1 = b[j := (elem y (j + 1) - elem y j) / elem h j
                      - elem h j * (elem c1 (j + 1) + Fin 2 * elem c1 j) / Fin 3];
          d1 = d[j := (elem c1 (j + 1) - elem c1 j) / (Fin 3 * elem h j)]
      in (b1, c1, d1)))"

text \<open>
  The three stages of the solver: the interval widths \<open>h\<close>, the forward sweep from
  \<open>mu[0] = z[0] = 0\<close>, and the back substitution from \<open>c[n] = 0\<close>.
\<close>

definition intervalWidths :: "number list \<Rightarrow> nat \<Rightarrow> number list" where
  "intervalWidths x n = map (\<lambda>i. elem x (i + 1) - elem x i) [0..<n]"

definition forwardSweep ::
  "number list \<Rightarrow> number list \<Rightarrow> number list \<Rightarrow> nat \<Rightarrow> number list \<times> number list" where
  "forwardSweep x y h n =
     fold (sweep_step x y h) [1..<n] ((replicate n 0)[0 := 0], (replicate (n + 1) 0)[0 := 0])"

definition backSubstitution ::
  "number list \<Rightarrow> number list \<Rightarrow> number list \<Rightarrow> number list \<Rightarrow> nat
     \<Rightarrow> number list \<times> number list \<times> number list" where
  "backSubstitution y h mu z n =
     fold (back_step y h mu z) (rev [0..<n])
       (replicate n 0, (replicate (n + 1) 0)[n := 0], replicate n 0)"

definition computeCubicPolyCoefficients ::
  "number list \<Rightarrow> number list \<Rightarrow> error + (number list \<times> number list \<times> number list)" where
  "computeCubicPolyCoefficients x y =
     (if length x \<noteq> length y then Inl DimensionMismatchError
      else if length x < 3 then Inl InsufficientPointsError
      else (let n = length x - 1
            in case MathArrays_checkOrder x of
                 Inl e \<Rightarrow> Inl e
               | Inr _ \<Rightarrow>
                   (let h = intervalWidths x n;
                        (mu, z1) = forwardSweep x y h n;
                        z = z1[n := 0]
                    in Inr (backSubstitution y h mu z n))))"

definition createCubicSplineInterpolator ::
  "number list \<Rightarrow> number list \<Rightarrow> error + evaluator" where
  "createCubicSplineInterpolator x y =
     (case computeCubicPolyCoefficients x y of
        Inl e \<Rightarrow> Inl e
      | Inr (b, c, d) \<Rightarrow>
          (let n = length x - 1
           in case createPolynomials
                     (map (\<lambda>i. [elem y i, elem b i, elem c i, elem d i]) [0..<n]) of
                Inl e \<Rightarrow> Inl e
              | Inr polynomials \<Rightarrow> createPolynomialSplineFunction x polynomials))"

section \<open>Batch evaluation of the cubic spline\<close>

text \<open>
  \<open>cubicSplineInterpolate\<close> works on ordinary JavaScript arrays with holes:
  \<open>sampleArr\<close>, its buckets and \<open>results\<close>. Such an array is a list of optional
  elements, \<open>None\<close> being a hole. Writing at an index beyond the length extends the
  array with holes; \<open>forEach\<close> skips the holes and passes each element with its index.
\<close>

type_synonym 'a sparse = "'a option list"

definition sparse_get :: "'a sparse \<Rightarrow> nat \<Rightarrow> 'a option" where
  "sparse_get arr i = (if i < length arr then arr ! i else None)"

definition sparse_set :: "'a sparse \<Rightarrow> nat \<Rightarrow> 'a \<Rightarrow> 'a sparse" where
  "sparse_set arr i v =
     (if i < length arr then arr[i := Some v]
      else arr @ replicate (i - length arr) None @ [Some v])"

text \<open>
  The first loop, over the indices \<open>i\<close> of \<open>xq\<close>: the segment index \<open>idx\<close> of \<open>xq[i]\<close>
  is found as in the spline evaluator, and \<open>xq[i]\<close> is stored at index \<open>i\<close> of the
  bucket \<open>sampleArr[idx]\<close>, created empty when it is missing.
\<close>

fun bucket_loop ::
  "number list \<Rightarrow> nat \<Rightarrow> number list \<Rightarrow> nat list \<Rightarrow> number sparse sparse
     \<Rightarrow> (error + number sparse sparse) option" where
  "bucket_loop x n xq [] sampleArr = Some (Inr sampleArr)"
| "bucket_loop x n xq (i # is) sampleArr =
     (case Arrays_binarySearch x (elem xq i) of
        None \<Rightarrow> None
      | Some (Inl e) \<Rightarrow> Some (Inl e)
      | Some (Inr idx0) \<Rightarrow>
          (let idx1 = (if idx0 < 0 then - idx0 - 2 else idx0);
               idx = nat (max 0 (min idx1 (int n - 1)));
               bucket = (case sparse_get sampleArr idx of None \<Rightarrow> [] | Some xqSubArr \<Rightarrow> xqSubArr)
           in bucket_loop x n xq is (sparse_set sampleArr idx (sparse_set bucket i (elem xq i)))))"

text \<open>
  The inner \<open>forEach\<close>. Its callback names its index parameter \<open>i\<close>, as the outer
  callback does, so \<open>x[i]\<close> in its body reads \<open>x\<close> at the index of the query in the
  bucket, not at the index of the segment.
\<close>

fun inner_forEach ::
  "(number \<Rightarrow> number) \<Rightarrow> number list \<Rightarrow> (nat \<times> number option) list
     \<Rightarrow> number sparse \<Rightarrow> number sparse" where
  "inner_forEach poly x [] results = results"
| "inner_forEach poly x ((i, None) # rest) results = inner_forEach poly x rest results"
| "inner_forEach poly x ((i, Some xq) # rest) results =
     inner_forEach poly x rest (sparse_set results i (poly (xq - elem x i)))"

fun outer_forEach ::
  "number list \<Rightarrow> number list \<Rightarrow> number list \<Rightarrow> number list \<Rightarrow> number list
     \<Rightarrow> (nat \<times> number sparse option) list \<Rightarrow> number sparse \<Rightarrow> error + number sparse" where
  "outer_forEach x y b c d [] results = Inr results"
| "outer_forEach x y b c d ((i, None) # rest) results = outer_forEach x y b c d rest results"
| "outer_forEach x y b c d ((i, Some xqSubArr) # rest) results =
     (case createPolynomialFunction [elem y i, elem b i, elem c i, elem d i] of
        Inl e \<Rightarrow> Inl e
      | Inr poly \<Rightarrow>
          outer_forEach x y b c d rest
            (inner_forEach poly x (zip [0..<length xqSubArr] xqSubArr) results))"

definition cubicSplineInterpolate ::
  "number list \<Rightarrow> number list \<Rightarrow> number list \<Rightarrow> (error + number sparse) option" where
  "cubicSplineInterpolate x y xq =
     (case computeCubicPolyCoefficients x y of
        Inl e \<Rightarrow> Some (Inl e)
      | Inr (b, c, d) \<Rightarrow>
          (let n = length x - 1
           in case bucket_loop x n xq [0..<length xq] [] of
                None \<Rightarrow> None
              | Some (Inl e) \<Rightarrow> Some (Inl e)
              | Some (Inr sampleArr) \<Rightarrow>
                  Some (outer_forEach x y b c d (zip [0..<length sampleArr] sampleArr) [])))"

section \<open>The constructors on a store of arrays\<close>

text \<open>
  The functions above take the contents of their arrays. To say what a constructor
  writes and which arrays its closure keeps, the constructors are given a second time
  over an explicit store: an array is an address, the store lists the contents of every
  array allocated so far, and a closure is the data it captures. \<open>new Float64Array(n)\<close>
  and \<open>slice()\<close> allocate at the next free address; an assignment \<open>a[i] = v\<close> replaces
  the contents at the address of \<open>a\<close>. The closures read the store at the time of the
  call.
\<close>

type_synonym addr = nat

type_synonym heap = "number list list"

definition new_array :: "heap \<Rightarrow> number list \<Rightarrow> heap \<times> addr" where
  "new_array h contents = (h @ [contents], length h)"

definition slice :: "heap \<Rightarrow> addr \<Rightarrow> heap \<times> addr" where
  "slice h a = new_array h (h ! a)"

definition store :: "heap \<Rightarrow> addr \<Rightarrow> number list \<Rightarrow> heap" where
  "store h a contents = h[a := contents]"

definition assign :: "heap \<Rightarrow> addr \<Rightarrow> nat \<Rightarrow> number \<Rightarrow> heap" where
  "assign h a i v = store h a ((h ! a)[i := v])"

text \<open>
  The closure of \<open>createPolynomialFunction\<close> captures \<open>c2\<close> and \<open>n\<close>. The closures
  returned by the constructors capture nothing (\<open>n = 0\<close>), \<open>yvals2\<close> (\<open>n = 1\<close>),
  \<open>xvals2\<close>, \<open>yvals2\<close> and \<open>n\<close> (nearest neighbour), or \<open>knots2\<close> and the array of
  polynomial closures (splines), which no code outside the closure can reach.
\<close>

datatype polynomial = Polynomial addr nat

datatype closure =
    AlwaysNaN
  | AlwaysFirst addr
  | Nearest addr addr nat
  | SplineFunction addr "polynomial list"

fun polynomial_call :: "heap \<Rightarrow> polynomial \<Rightarrow> number \<Rightarrow> number" where
  "polynomial_call h (Polynomial c2 n) = polynomialEval (h ! c2) n"

fun call :: "heap \<Rightarrow> closure \<Rightarrow> evaluator" where
  "call h AlwaysNaN = (\<lambda>_. Some (Inr NaN))"
| "call h (AlwaysFirst yvals2) = (\<lambda>_. Some (Inr (elem (h ! yvals2) 0)))"
| "call h (Nearest xvals2 yvals2 n) = nearestNeighborEval (h ! xvals2) (h ! yvals2) n"
| "call h (SplineFunction knots2 polynomials) =
     splineEval (h ! knots2) (map (polynomial_call h) polynomials)"

definition h_createPolynomialFunction :: "heap \<Rightarrow> addr \<Rightarrow> heap \<times> (error + polynomial)" where
  "h_createPolynomialFunction h c =
     (let (h1, c2) = slice h c; n = length (h1 ! c2)
      in if n = 0 then (h1, Inl EmptyCoefficientsError)
         else (h1, Inr (Polynomial c2 (trim_loop (h1 ! c2) n))))"

text \<open>
  The loop that fills the buffer \<open>coefficients\<close> for segment \<open>i\<close> (\<open>row h i\<close> are the
  values assigned, read from the store at that moment) and passes the buffer to
  \<open>createPolynomialFunction\<close>.
\<close>

fun h_createPolynomials ::
  "(heap \<Rightarrow> nat \<Rightarrow> number list) \<Rightarrow> addr \<Rightarrow> nat list \<Rightarrow> heap
     \<Rightarrow> heap \<times> (error + polynomial list)" where
  "h_createPolynomials row coefficients [] h = (h, Inr [])"
| "h_createPolynomials row coefficients (i # is) h =
     (case h_createPolynomialFunction (store h coefficients (row h i)) coefficients of
        (h1, Inl e) \<Rightarrow> (h1, Inl e)
      | (h1, Inr p) \<Rightarrow>
          (case h_createPolynomials row coefficients is h1 of
             (h2, Inl e) \<Rightarrow> (h2, Inl e)
           | (h2, Inr ps) \<Rightarrow> (h2, Inr (p # ps))))"

definition h_createPolynomialSplineFunction ::
  "heap \<Rightarrow> addr \<Rightarrow> polynomial list \<Rightarrow> heap \<times> (error + closure)" where
  "h_createPolynomialSplineFunction h knots polynomials =
     (let (h1, knots2) = slice h knots
      in if length (h1 ! knots2) < 2 then (h1, Inl InsufficientKnotsError)
         else if int (length (h1 ! knots2)) - 1 \<noteq> int (length polynomials)
           then (h1, Inl DimensionMismatchError)
         else (case MathArrays_checkOrder (h1 ! knots2) of
                 Inl e \<Rightarrow> (h1, Inl e)
               | Inr _ \<Rightarrow> (h1, Inr (SplineFunction knots2 polynomials))))"

definition h_createNearestNeighborInterpolator ::
  "heap \<Rightarrow> addr \<Rightarrow> addr \<Rightarrow> heap \<times> (error + closure)" where
  "h_createNearestNeighborInterpolator h xvals yvals =
     (let (h1, xvals2) = slice h xvals;
          (h2, yvals2) = slice h1 yvals;
          n = length (h2 ! xvals2)
      in if n \<noteq> length (h2 ! yvals2) then (h2, Inl DimensionMismatchError)
         else if n = 0 then (h2, Inr AlwaysNaN)
         else if n = 1 then (h2, Inr (AlwaysFirst yvals2))
         else (case MathArrays_checkOrder (h2 ! xvals2) of
                 Inl e \<Rightarrow> (h2, Inl e)
               | Inr _ \<Rightarrow> (h2, Inr (Nearest xvals2 yvals2 n))))"

definition h_createLinearInterpolator ::
  "heap \<Rightarrow> addr \<Rightarrow> addr \<Rightarrow> heap \<times> (error + closure)" where
  "h_createLinearInterpolator h x y =
     (if length (h ! x) \<noteq> length (h ! y) then (h, Inl DimensionMismatchError)
      else if length (h ! x) < 2 then (h, Inl InsufficientPointsError)
      else (let n = length (h ! x) - 1
            in case MathArrays_checkOrder (h ! x) of
                 Inl e \<Rightarrow> (h, Inl e)
               | Inr _ \<Rightarrow>
                   (let (h1, m) = new_array h (replicate n 0);
                        h2 = fold (\<lambda>i hp. assign hp m i
                                     ((elem (hp ! y) (i + 1) - elem (hp ! y) i)
                                        / (elem (hp ! x) (i + 1) - elem (hp ! x) i)))
                               [0..<n] h1;
                        (h3, coefficients) = new_array h2 (replicate 2 0)
                    in case h_createPolynomials (\<lambda>hp i. [elem (hp ! y) i, elem (hp ! m) i])
                              coefficients [0..<n] h3 of
                         (h4, Inl e) \<Rightarrow> (h4, Inl e)
                       | (h4, Inr polynomials) \<Rightarrow>
                           h_createPolynomialSplineFunction h4 x polynomials)))"

definition h_interpolateHermiteSorted ::
  "heap \<Rightarrow> addr \<Rightarrow> addr \<Rightarrow> addr \<Rightarrow> heap \<times> (error + closure)" where
  "h_interpolateHermiteSorted h xvals yvals firstDerivatives =
     (let n = length (h ! xvals)
      in if n \<noteq> length (h ! yvals) \<or> n \<noteq> length (h ! firstDerivatives)
           then (h, Inl DimensionMismatchError)
         else if n < 2 then (h, Inl InsufficientPointsError)
         else (let (h1, coefficients) = new_array h (replicate 4 0)
               in case h_createPolynomials
                         (\<lambda>hp. hermiteCoefficients (hp ! xvals) (hp ! yvals) (hp ! firstDerivatives))
                         coefficients [0..<n - 1] h1 of
                    (h2, Inl e) \<Rightarrow> (h2, Inl e)
                  | (h2, Inr polynomials) \<Rightarrow>
                      h_createPolynomialSplineFunction h2 xvals polynomials))"

definition h_createAkimaSplineInterpolator ::
  "heap \<Rightarrow> addr \<Rightarrow> addr \<Rightarrow> heap \<times> (error + closure)" where
  "h_createAkimaSplineInterpolator h xvals yvals =
     (let n = length (h ! xvals)
      in if n \<noteq> length (h ! yvals) then (h, Inl DimensionMismatchError)
         else if n < 5 then (h, Inl InsufficientPointsError)
         else (case MathArrays_checkOrder (h ! xvals) of
                 Inl e \<Rightarrow> (h, Inl e)
               | Inr _ \<Rightarrow>
                   (let (h1, differences) = new_array h (replicate (n - 1) 0);
                        (h2, weights) = new_array h1 (replicate (n - 1) 0);
                        h3 = fold (\<lambda>i hp. assign hp differences i
                                     ((elem (hp ! yvals) (i + 1) - elem (hp ! yvals) i)
                                        / (elem (hp ! xvals) (i + 1) - elem (hp ! xvals) i)))
                               [0..<n - 1] h2;
                        h4 = fold (\<lambda>i hp. assign hp weights i
                                     \<bar>elem (hp ! differences) i - elem (hp ! differences) (i - 1)\<bar>)
                               [1..<n - 1] h3;
                        (h5, firstDerivatives) = new_array h4 (replicate n 0);
                        h6 = fold (\<lambda>i hp. assign hp firstDerivatives i
                                     (akimaDerivative (hp ! xvals) (hp ! differences)
                                        (hp ! weights) i))
                               [2..<n - 2] h5;
                        h7 = assign h6 firstDerivatives 0
                               (differentiateThreePoint (h6 ! xvals) (h6 ! yvals) 0 0 1 2);
                        h8 = assign h7 firstDerivatives 1
                               (differentiateThreePoint (h7 ! xvals) (h7 ! yvals) 1 0 1 2);
                        h9 = assign h8 firstDerivatives (n - 2)
                               (differentiateThreePoint (h8 ! xvals) (h8 ! yvals)
                                  (n - 2) (n - 3) (n - 2) (n - 1));
                        h10 = assign h9 firstDerivatives (n - 1)
                                (differentiateThreePoint (h9 ! xvals) (h9 ! yvals)
                                   (n - 1) (n - 3) (n - 2) (n - 1))
                    in h_interpolateHermiteSorted h10 xvals yvals firstDerivatives)))"

definition h_computeCubicPolyCoefficients ::
  "heap \<Rightarrow> addr \<Rightarrow> addr \<Rightarrow> heap \<times> (error + addr \<times> addr \<times> addr)" where
  "h_computeCubicPolyCoefficients hp0 x y =
     (if length (hp0 ! x) \<noteq> length (hp0 ! y) then (hp0, Inl DimensionMismatchError)
      else if length (hp0 ! x) < 3 then (hp0, Inl InsufficientPointsError)
      else (let n = length (hp0 ! x) - 1
            in case MathArrays_checkOrder (hp0 ! x) of
                 Inl e \<Rightarrow> (hp0, Inl e)
               | Inr _ \<Rightarrow>
                   (let (hp1, h) = new_array hp0 (replicate n 0);
                        hp2 = fold (\<lambda>i hp. assign hp h i (elem (hp ! x) (i + 1) - elem (hp ! x) i))
                                [0..<n] hp1;
                        (hp3, mu) = new_array hp2 (replicate n 0);
                        (hp4, z) = new_array hp3 (replicate (n + 1) 0);
                        hp5 = assign hp4 mu 0 0;
                        hp6 = assign hp5 z 0 0;
                        hp7 = fold (\<lambda>i hp.
                                      (let (mu1, z1) = sweep_step (hp ! x) (hp ! y) (hp ! h) i
                                                         (hp ! mu, hp ! z)
                                       in store (store hp mu mu1) z z1))
                                [1..<n] hp6;
                        (hp8, b) = new_array hp7 (replicate n 0);
                        (hp9, c) = new_array hp8 (replicate (n + 1) 0);
                        (hp10, d) = new_array hp9 (replicate n 0);
                        hp11 = assign hp10 z n 0;
                        hp12 = assign hp11 c n 0;
                        hp13 = fold (\<lambda>j hp.
                                       (let (b1, c1, d1) =
                                              back_step (hp ! y) (hp ! h) (hp ! mu) (hp ! z) j
                                                (hp ! b, hp ! c, hp ! d)
                                        in store (store (store hp b b1) c c1) d d1))
                                 (rev [0..<n]) hp12
                    in (hp13, Inr (b, c, d)))))"

definition h_createCubicSplineInterpolator ::
  "heap \<Rightarrow> addr \<Rightarrow> addr \<Rightarrow> heap \<times> (error + closure)" where
  "h_createCubicSplineInterpolator h x y =
     (case h_computeCubicPolyCoefficients h x y of
        (h1, Inl e) \<Rightarrow> (h1, Inl e)
      | (h1, Inr (b, c, d)) \<Rightarrow>
          (let n = length (h1 ! x) - 1;
               (h2, coefficients) = new_array h1 (replicate 4 0)
           in case h_createPolynomials
                     (\<lambda>hp i. [elem (hp ! y) i, elem (hp ! b) i, elem (hp ! c) i, elem (hp ! d) i])
                     coefficients [0..<n] h2 of
                (h3, Inl e) \<Rightarrow> (h3, Inl e)
              | (h3, Inr polynomials) \<Rightarrow> h_createPolynomialSplineFunction h3 x polynomials))"

text \<open>The four constructors, and the arrays that a closure has captured.\<close>

definition h_constructors :: "(heap \<Rightarrow> addr \<Rightarrow> addr \<Rightarrow> heap \<times> (error + closure)) list" where
  "h_constructors =
     [h_createNearestNeighborInterpolator, h_createLinearInterpolator,
      h_createCubicSplineInterpolator, h_createAkimaSplineInterpolator]"

fun polynomial_addr :: "polynomial \<Rightarrow> addr" where
  "polynomial_addr (Polynomial c2 n) = c2"

fun captured :: "closure \<Rightarrow> addr set" where
  "captured AlwaysNaN = {}"
| "captured (AlwaysFirst yvals2) = {yvals2}"
| "captured (Nearest xvals2 yvals2 n) = {xvals2, yvals2}"
| "captured (SplineFunction knots2 polynomials) =
     insert knots2 (polynomial_addr ` set polynomials)"

text \<open>\<open>frame h h'\<close>: the store \<open>h'\<close> extends \<open>h\<close> and every array of \<open>h\<close> has kept its contents.\<close>

definition frame :: "heap \<Rightarrow> heap \<Rightarrow> bool" where
  "frame h h' = (length h \<le> length h' \<and> take (length h) h' = h)"

text \<open>A returned closure has captured only arrays allocated between \<open>h\<close> and \<open>h'\<close>.\<close>

definition fresh_closure :: "heap \<Rightarrow> heap \<Rightarrow> error + closure \<Rightarrow> bool" where
  "fresh_closure h h' r =
     (\<forall>clo. r = Inr clo \<longrightarrow> (\<forall>a \<in> captured clo. length h \<le> a \<and> a < length h'))"

text \<open>
  \<open>agree_except A h h'\<close>: the store \<open>h'\<close> extends \<open>h\<close>, and the arrays of \<open>h\<close> outside \<open>A\<close>
  have kept their contents.
\<close>

definition agree_except :: "addr set \<Rightarrow> heap \<Rightarrow> heap \<Rightarrow> bool" where
  "agree_except A h h' = (length h \<le> length h' \<and> (\<forall>a < length h. a \<notin> A \<longrightarrow> h' ! a = h ! a))"

section \<open>Notions used in the statements\<close>

text \<open>
  Applying the result of a constructor to a query, as in
  \<open>createLinearInterpolator(x, y)(q)\<close>: an error of the constructor is the error of
  the whole expression.
\<close>

definition applied :: "error + evaluator \<Rightarrow> number \<Rightarrow> (error + number) option" where
  "applied r q = (case r of Inl e \<Rightarrow> Some (Inl e) | Inr f \<Rightarrow> f q)"

text \<open>
  The insertion point of a key, in the words of the specification: the index of the
  first element greater than the key, or the length if there is none. The segment of a
  query is the insertion point minus one, clamped to the segments that exist.
\<close>

definition insertionPoint :: "real list \<Rightarrow> real \<Rightarrow> nat" where
  "insertionPoint ks q = length (takeWhile (\<lambda>k. \<not> q < k) ks)"

definition segmentIndex :: "real list \<Rightarrow> real \<Rightarrow> nat" where
  "segmentIndex ks q =
     nat (max 0 (min (int (insertionPoint ks q) - 1) (int (length ks) - 2)))"

text \<open>
  The contract of \<open>java.util.Arrays.binarySearch\<close> on a strictly increasing array: a
  result \<open>r \<ge> 0\<close> is the index of the key, a result \<open>r < 0\<close> encodes the position
  \<open>- r - 1\<close> that separates the smaller elements from the greater ones.
\<close>

definition bs_post :: "real list \<Rightarrow> real \<Rightarrow> int \<Rightarrow> bool" where
  "bs_post xs q r =
     (if 0 \<le> r then nat r < length xs \<and> xs ! nat r = q
      else nat (- r - 1) \<le> length xs
         \<and> (\<forall>i < nat (- r - 1). xs ! i < q)
         \<and> (\<forall>i. nat (- r - 1) \<le> i \<and> i < length xs \<longrightarrow> q < xs ! i))"

text \<open>The value of the polynomial with the real coefficients \<open>cs\<close>, constant term first.\<close>

definition peval :: "real list \<Rightarrow> real \<Rightarrow> real" where
  "peval cs t = foldr (\<lambda>a r. a + t * r) cs 0"

text \<open>
  A comparison of the binary search that yields neither less-than, greater-than nor equal,
  and the elements that a run of the loop from the bounds \<open>low\<close> and \<open>high\<close> compares
  with the key: the middle element, then those of the half in which the loop continues.
\<close>

definition incomparable :: "number \<Rightarrow> number \<Rightarrow> bool" where
  "incomparable midVal key = (\<not> midVal < key \<and> \<not> key < midVal \<and> \<not> num_eq midVal key)"

inductive inspects :: "number list \<Rightarrow> number \<Rightarrow> int \<Rightarrow> int \<Rightarrow> int \<Rightarrow> bool"
  for a :: "number list" and key :: number where
  inspects_mid:
    "low \<le> high \<Longrightarrow> inspects a key low high ((low + high) mod 2 ^ 32 div 2)"
| inspects_right:
    "low \<le> high \<Longrightarrow> mid = (low + high) mod 2 ^ 32 div 2 \<Longrightarrow> elem_int a mid < key
       \<Longrightarrow> inspects a key (mid + 1) high m \<Longrightarrow> inspects a key low high m"
| inspects_left:
    "low \<le> high \<Longrightarrow> mid = (low + high) mod 2 ^ 32 div 2 \<Longrightarrow> \<not> elem_int a mid < key
       \<Longrightarrow> key < elem_int a mid
       \<Longrightarrow> inspects a key low (mid - 1) m \<Longrightarrow> inspects a key low high m"

code_pred (modes: i \<Rightarrow> i \<Rightarrow> i \<Rightarrow> i \<Rightarrow> i \<Rightarrow> bool, i \<Rightarrow> i \<Rightarrow> i \<Rightarrow> i \<Rightarrow> o \<Rightarrow> bool)
  inspects .

definition constructors :: "(number list \<Rightarrow> number list \<Rightarrow> error + evaluator) list" where
  "constructors =
     [createNearestNeighborInterpolator, createLinearInterpolator,
      createCubicSplineInterpolator, createAkimaSplineInterpolator]"

text \<open>
  The errors that the four constructors raise themselves: the mismatch of the lengths, the
  minimum number of points, and the order check.
\<close>

definition construction_errors :: "error set" where
  "construction_errors = {DimensionMismatchError, InsufficientPointsError, OrderError}"

text \<open>
  Invariants of the two loops of the cubic solver on valid samples: the entries of \<open>mu\<close>
  stay in \<open>[0, 1)\<close>, all entries stay finite, and the polynomial of segment \<open>k\<close> takes the
  value \<open>y[k+1]\<close> at the right end of its interval.
\<close>

definition sweep_inv :: "nat \<Rightarrow> number list \<times> number list \<Rightarrow> bool" where
  "sweep_inv n = (\<lambda>(mu, z). length mu = n \<and> length z = n + 1
      \<and> (\<forall>j < n. \<exists>m. mu ! j = Fin m \<and> 0 \<le> m \<and> m < 1)
      \<and> (\<forall>j < n + 1. \<exists>v. z ! j = Fin v))"

definition back_inv :: "nat \<Rightarrow> number list \<times> number list \<times> number list \<Rightarrow> bool" where
  "back_inv n = (\<lambda>(b, c, d). length b = n \<and> length c = n + 1 \<and> length d = n
      \<and> (\<forall>j < n. \<exists>v. b ! j = Fin v) \<and> (\<forall>j < n + 1. \<exists>v. c ! j = Fin v)
      \<and> (\<forall>j < n. \<exists>v. d ! j = Fin v))"

definition closes ::
  "real list \<Rightarrow> real list \<Rightarrow> nat \<Rightarrow> number list \<times> number list \<times> number list \<Rightarrow> bool" where
  "closes xs ys k = (\<lambda>(b, c, d). \<exists>bk ck dk.
      b ! k = Fin bk \<and> c ! k = Fin ck \<and> d ! k = Fin dk
      \<and> peval [ys ! k, bk, ck, dk] (xs ! (k + 1) - xs ! k) = ys ! (k + 1))"


section \<open>Numbers and arrays: basic facts\<close>

lemma NaN_compare [simp]:
  "\<not> NaN < v" "\<not> v < NaN" "\<not> NaN \<le> v" "\<not> v \<le> NaN" "\<not> num_eq NaN v" "\<not> num_eq v NaN"
  by (cases v; simp)+

lemma elem_map_Fin: "i < length xs \<Longrightarrow> elem (map Fin xs) i = Fin (xs ! i)"
  by (simp add: elem_def)

lemma sorted_nth_le:
  "sorted_wrt (<) ks \<Longrightarrow> i \<le> j \<Longrightarrow> j < length ks \<Longrightarrow> ks ! i \<le> (ks ! j :: real)"
  by (cases "i = j") (auto simp: sorted_wrt_iff_nth_less less_imp_le)

lemma applied_value:
  "applied r q = Some (Inr v) \<Longrightarrow> \<exists>f. r = Inr f \<and> f q = Some (Inr v)"
  by (cases r) (auto simp: applied_def)

section \<open>The order check\<close>

lemma checkOrder_loop_sorted:
  "checkOrder_loop (Fin p) (map Fin xs) = Inr () \<longleftrightarrow> sorted_wrt (<) (p # xs)"
  by (induction xs arbitrary: p) (auto simp: not_le)

lemma checkOrder_sorted:
  "MathArrays_checkOrder (map Fin xs) = Inr () \<longleftrightarrow> sorted_wrt (<) xs"
proof (cases xs)
  case Nil
  then show ?thesis by (simp add: MathArrays_checkOrder_def)
next
  case (Cons p ps)
  then show ?thesis
    using checkOrder_loop_sorted [of p ps]
    by (simp add: MathArrays_checkOrder_def elem_def drop_map)
qed

lemma checkOrder_ok: "sorted_wrt (<) xs \<Longrightarrow> MathArrays_checkOrder (map Fin xs) = Inr ()"
  by (simp add: checkOrder_sorted)

lemma checkOrder_loop_error: "checkOrder_loop p vs = Inl e \<Longrightarrow> e = OrderError"
  by (induction vs arbitrary: p) (auto split: if_splits)

lemma checkOrder_error: "MathArrays_checkOrder val = Inl e \<Longrightarrow> e = OrderError"
  by (auto simp: MathArrays_checkOrder_def dest: checkOrder_loop_error)

section \<open>The binary search on a strictly increasing array\<close>

lemma binarySearch_loop_sorted:
  assumes srt: "sorted_wrt (<) xs" and len: "length xs < 2 ^ 31"
  shows "0 \<le> low \<Longrightarrow> high < int (length xs) \<Longrightarrow> low \<le> high + 1
      \<Longrightarrow> (\<forall>i. int i < low \<longrightarrow> xs ! i < q)
      \<Longrightarrow> (\<forall>i. high < int i \<and> i < length xs \<longrightarrow> q < xs ! i)
      \<Longrightarrow> \<exists>r. binarySearch_loop (map Fin xs) (Fin q) low high = Some (Inr r) \<and> bs_post xs q r"
proof (induction "nat (high - low + 1)" arbitrary: low high rule: less_induct)
  case less
  show ?case
  proof (cases "low \<le> high")
    case False
    with less.prems have eq: "low = high + 1" by simp
    have "bs_post xs q (- (low + 1))"
      using less.prems eq by (auto simp: bs_post_def)
    with False show ?thesis
      by (subst binarySearch_loop.simps) simp
  next
    case True
    define mid where "mid = (low + high) div 2"
    have sum: "(low + high) mod 4294967296 = low + high"
      using less.prems True len by (intro mod_pos_pos_trivial) auto
    have mid: "low \<le> mid" "mid \<le> high" "0 \<le> mid" "nat mid < length xs"
      using less.prems True by (auto simp: mid_def)
    have ev: "elem_int (map Fin xs) mid = Fin (xs ! nat mid)"
      using mid by (simp add: elem_int_def elem_def)
    consider (lt) "xs ! nat mid < q" | (gt) "q < xs ! nat mid" | (eq) "xs ! nat mid = q"
      by linarith
    then show ?thesis
    proof cases
      case lt
      have below: "\<forall>i. int i < mid + 1 \<longrightarrow> xs ! i < q"
      proof (intro allI impI)
        fix i assume "int i < mid + 1"
        then have "i \<le> nat mid" using mid by linarith
        then have "xs ! i \<le> xs ! nat mid"
          using srt mid by (cases "i = nat mid") (auto simp: sorted_wrt_iff_nth_less less_imp_le)
        with lt show "xs ! i < q" by simp
      qed
      have "\<exists>r. binarySearch_loop (map Fin xs) (Fin q) (mid + 1) high = Some (Inr r) \<and> bs_post xs q r"
        using less.prems mid below True by (intro less.hyps) auto
      then show ?thesis
        using lt True by (subst binarySearch_loop.simps) (simp add: Let_def sum ev mid_def [symmetric])
    next
      case gt
      have above: "\<forall>i. mid - 1 < int i \<and> i < length xs \<longrightarrow> q < xs ! i"
      proof (intro allI impI)
        fix i assume "mid - 1 < int i \<and> i < length xs"
        then have "nat mid \<le> i" "i < length xs" using mid by linarith+
        then have "xs ! nat mid \<le> xs ! i"
          using srt mid by (cases "i = nat mid") (auto simp: sorted_wrt_iff_nth_less less_imp_le)
        with gt show "q < xs ! i" by simp
      qed
      have "\<exists>r. binarySearch_loop (map Fin xs) (Fin q) low (mid - 1) = Some (Inr r) \<and> bs_post xs q r"
        using less.prems mid above True by (intro less.hyps) auto
      then show ?thesis
        using gt True by (subst binarySearch_loop.simps) (simp add: Let_def sum ev mid_def [symmetric])
    next
      case eq
      have "bs_post xs q mid" using mid eq by (simp add: bs_post_def)
      then show ?thesis
        using eq True by (subst binarySearch_loop.simps) (simp add: Let_def sum ev mid_def [symmetric])
    qed
  qed
qed

lemma binarySearch_sorted:
  assumes "sorted_wrt (<) ks" "length ks < 2 ^ 31"
  shows "\<exists>r. Arrays_binarySearch (map Fin ks) (Fin q) = Some (Inr r) \<and> bs_post ks q r"
  unfolding Arrays_binarySearch_def
  using assms by (simp add: binarySearch_loop_sorted)

lemma insertionPoint_eq:
  assumes "k \<le> length ks" "\<forall>i<k. ks ! i \<le> q" "k < length ks \<Longrightarrow> q < ks ! k"
  shows "insertionPoint ks q = k"
proof -
  have "takeWhile (\<lambda>k. \<not> q < k) ks = take k ks"
    using assms by (intro takeWhile_eq_take_P_nth) (auto simp: not_less)
  with assms(1) show ?thesis by (simp add: insertionPoint_def)
qed

lemma insertionPoint_sorted:
  assumes "sorted_wrt (<) ks" "k \<le> length ks"
    "0 < k \<Longrightarrow> ks ! (k - 1) \<le> q" "k < length ks \<Longrightarrow> q < ks ! k"
  shows "insertionPoint ks q = k"
proof (rule insertionPoint_eq)
  show "\<forall>i<k. ks ! i \<le> q"
  proof (intro allI impI)
    fix i assume i: "i < k"
    then have "ks ! i \<le> ks ! (k - 1)"
      using assms(1,2) by (intro sorted_nth_le) auto
    with assms(3) i show "ks ! i \<le> q" by simp
  qed
qed (use assms in auto)

lemma bs_post_insertionPoint:
  assumes "sorted_wrt (<) ks" "bs_post ks q r"
  shows "(if r < 0 then - r - 1 else r + 1) = int (insertionPoint ks q)"
proof (cases "0 \<le> r")
  case True
  with assms(2) have r: "nat r < length ks" "ks ! nat r = q"
    by (simp_all add: bs_post_def)
  have "insertionPoint ks q = nat r + 1"
  proof (rule insertionPoint_sorted [OF assms(1)])
    assume "nat r + 1 < length ks"
    then have "ks ! nat r < ks ! (nat r + 1)"
      using assms(1) by (simp add: sorted_wrt_iff_nth_less)
    with r show "q < ks ! (nat r + 1)" by simp
  qed (use r in auto)
  with True show ?thesis by simp
next
  case False
  with assms(2) have p: "nat (- r - 1) \<le> length ks" "\<forall>i < nat (- r - 1). ks ! i < q"
    "\<forall>i. nat (- r - 1) \<le> i \<and> i < length ks \<longrightarrow> q < ks ! i"
    by (simp_all add: bs_post_def)
  have "insertionPoint ks q = nat (- r - 1)"
    using p by (intro insertionPoint_eq) (auto simp: less_imp_le)
  with False show ?thesis by simp
qed

lemma segmentIndex_less:
  "2 \<le> length ks \<Longrightarrow> segmentIndex ks q < length ks - 1"
  by (auto simp: segmentIndex_def)

lemma segmentIndex_between:
  assumes "sorted_wrt (<) ks" "k + 1 < length ks" "ks ! k \<le> q" "q < ks ! (k + 1)"
  shows "segmentIndex ks q = k"
proof -
  have "insertionPoint ks q = k + 1"
    using assms by (intro insertionPoint_sorted) auto
  with assms(2) show ?thesis by (simp add: segmentIndex_def)
qed

lemma segmentIndex_below:
  assumes "sorted_wrt (<) ks" "2 \<le> length ks" "q < ks ! 0"
  shows "segmentIndex ks q = 0"
proof -
  have "insertionPoint ks q = 0"
    using assms by (intro insertionPoint_sorted) auto
  then show ?thesis by (simp add: segmentIndex_def)
qed

lemma segmentIndex_above:
  assumes "sorted_wrt (<) ks" "2 \<le> length ks" "ks ! (length ks - 1) \<le> q"
  shows "segmentIndex ks q = length ks - 2"
proof -
  have "insertionPoint ks q = length ks"
    using assms by (intro insertionPoint_sorted) auto
  with assms(2) show ?thesis by (simp add: segmentIndex_def)
qed

lemma segmentIndex_knot:
  assumes "sorted_wrt (<) ks" "2 \<le> length ks" "k < length ks"
  shows "segmentIndex ks (ks ! k) = min k (length ks - 2)"
proof (cases "k + 1 < length ks")
  case True
  then have "ks ! k < ks ! (k + 1)"
    using assms(1) by (simp add: sorted_wrt_iff_nth_less)
  with True assms(1) have "segmentIndex ks (ks ! k) = k"
    by (intro segmentIndex_between) auto
  with True show ?thesis by simp
next
  case False
  with assms have k: "k = length ks - 1" by simp
  with assms have "segmentIndex ks (ks ! k) = length ks - 2"
    by (intro segmentIndex_above) auto
  with k assms(2) show ?thesis by simp
qed

section \<open>Polynomial functions over the reals\<close>

lemma peval_snoc: "peval (cs @ [a]) t = peval cs t + t ^ length cs * a"
  by (induction cs) (simp_all add: peval_def algebra_simps)

lemma horner_loop_Fin:
  "k \<le> length cs \<Longrightarrow>
   horner_loop (map Fin cs) (Fin t) (Fin v) k = Fin (peval (take k cs) t + t ^ k * v)"
proof (induction k arbitrary: v)
  case 0
  then show ?case by (simp add: peval_def)
next
  case (Suc k)
  then have "take (Suc k) cs = take k cs @ [cs ! k]"
    by (simp add: take_Suc_conv_app_nth)
  with Suc show ?case
    by (simp add: elem_map_Fin peval_snoc algebra_simps)
qed

lemma trim_loop_bounds: "0 < k \<Longrightarrow> 0 < trim_loop c k \<and> trim_loop c k \<le> k"
  by (induction k) auto

lemma trim_loop_zeros:
  "k \<le> length cs \<Longrightarrow> trim_loop (map Fin cs) k \<le> i \<Longrightarrow> i < k \<Longrightarrow> cs ! i = 0"
proof (induction k)
  case 0
  then show ?case by simp
next
  case (Suc k)
  show ?case
  proof (cases "i = k")
    case True
    with Suc.prems show ?thesis
      by (auto simp: elem_map_Fin zero_number_def split: if_splits)
  next
    case False
    with Suc show ?thesis
      by (auto simp: elem_map_Fin zero_number_def split: if_splits)
  qed
qed

lemma peval_take_zeros:
  "n \<le> length cs \<Longrightarrow> (\<forall>i. n \<le> i \<and> i < length cs \<longrightarrow> cs ! i = 0)
     \<Longrightarrow> peval (take n cs) t = peval cs t"
proof (induction cs arbitrary: n rule: rev_induct)
  case Nil
  then show ?case by simp
next
  case (snoc a cs)
  show ?case
  proof (cases "n = length (cs @ [a])")
    case True
    then show ?thesis by simp
  next
    case False
    with snoc.prems have n: "n \<le> length cs" by simp
    from snoc.prems n have a: "a = 0"
      by (auto dest: spec [of _ "length cs"])
    have "\<forall>i. n \<le> i \<and> i < length cs \<longrightarrow> cs ! i = 0"
    proof (intro allI impI)
      fix i assume i: "n \<le> i \<and> i < length cs"
      with snoc.prems(2) have "(cs @ [a]) ! i = 0" by simp
      with i show "cs ! i = 0" by (simp add: nth_append)
    qed
    with snoc.IH n have "peval (take n cs) t = peval cs t" by simp
    with n a show ?thesis by (simp add: peval_snoc)
  qed
qed

lemma polynomialEval_Fin:
  assumes "cs \<noteq> []"
  shows "polynomialEval (map Fin cs) (trim_loop (map Fin cs) (length cs)) (Fin t)
           = Fin (peval cs t)"
proof -
  define n where "n = trim_loop (map Fin cs) (length cs)"
  from assms have n: "0 < n" "n \<le> length cs"
    using trim_loop_bounds [of "length cs" "map Fin cs"] by (simp_all add: n_def)
  then have tk: "take n cs = take (n - 1) cs @ [cs ! (n - 1)]"
    by (metis Suc_diff_1 Suc_le_lessD take_Suc_conv_app_nth)
  have zeros: "\<forall>i. n \<le> i \<and> i < length cs \<longrightarrow> cs ! i = 0"
    using trim_loop_zeros [of "length cs" cs] by (simp add: n_def)
  have "polynomialEval (map Fin cs) n (Fin t)
          = Fin (peval (take (n - 1) cs) t + t ^ (n - 1) * cs ! (n - 1))"
    using n by (simp add: polynomialEval_def elem_map_Fin horner_loop_Fin)
  also have "\<dots> = Fin (peval (take n cs) t)"
    using n by (simp add: tk peval_snoc)
  also have "\<dots> = Fin (peval cs t)"
    using peval_take_zeros [OF n(2) zeros] by simp
  finally show ?thesis by (simp add: n_def)
qed

lemma createPolynomialFunction_ok:
  "c \<noteq> [] \<Longrightarrow> createPolynomialFunction c = Inr (polynomialEval c (trim_loop c (length c)))"
  by (simp add: createPolynomialFunction_def)

lemma createPolynomialFunction_error:
  "createPolynomialFunction c = Inl e \<Longrightarrow> e = EmptyCoefficientsError"
  by (auto simp: createPolynomialFunction_def Let_def split: if_splits)

lemma createPolynomials_ok:
  "\<forall>c \<in> set cs. c \<noteq> [] \<Longrightarrow>
   createPolynomials cs = Inr (map (\<lambda>c. polynomialEval c (trim_loop c (length c))) cs)"
  by (induction cs) (simp_all add: createPolynomialFunction_ok)

lemma createPolynomials_error:
  "createPolynomials cs = Inl e \<Longrightarrow> e = EmptyCoefficientsError"
  by (induction cs) (auto split: sum.splits dest: createPolynomialFunction_error)

lemma createPolynomials_nth:
  assumes "\<forall>c \<in> set cs. c \<noteq> []"
  shows "\<exists>ps. createPolynomials cs = Inr ps \<and> length ps = length cs
           \<and> (\<forall>i < length cs. ps ! i = polynomialEval (cs ! i) (trim_loop (cs ! i) (length (cs ! i))))"
  using assms by (simp add: createPolynomials_ok)

section \<open>The spline evaluator\<close>

lemma splineEval_sorted:
  assumes srt: "sorted_wrt (<) ks" and len: "2 \<le> length ks" "length ks < 2 ^ 31"
    and polys: "length polynomials = length ks - 1"
  shows "splineEval (map Fin ks) polynomials (Fin q) =
           Some (Inr ((polynomials ! segmentIndex ks q) (Fin q - Fin (ks ! segmentIndex ks q))))"
proof -
  from binarySearch_sorted [OF srt len(2)] obtain r where
    r: "Arrays_binarySearch (map Fin ks) (Fin q) = Some (Inr r)" and post: "bs_post ks q r"
    by blast
  define i where "i = max 0 (min (if r < 0 then - r - 2 else r) (int (length polynomials) - 1))"
  from bs_post_insertionPoint [OF srt post]
  have "(if r < 0 then - r - 2 else r) = int (insertionPoint ks q) - 1"
    by (simp split: if_splits)
  then have seg: "nat i = segmentIndex ks q"
    using len polys by (simp add: i_def segmentIndex_def of_nat_diff)
  have i0: "0 \<le> i" by (simp add: i_def)
  have "elem_int (map Fin ks) i = Fin (ks ! nat i)"
    using i0 segmentIndex_less [OF len(1), of q] seg
    by (simp add: elem_int_def elem_map_Fin)
  then show ?thesis
    using r seg by (simp add: splineEval_def Let_def i_def [symmetric])
qed

lemma createPolynomialSplineFunction_ok:
  "sorted_wrt (<) ks \<Longrightarrow> 2 \<le> length ks \<Longrightarrow> length polynomials = length ks - 1
     \<Longrightarrow> createPolynomialSplineFunction (map Fin ks) polynomials
          = Inr (splineEval (map Fin ks) polynomials)"
  by (simp add: createPolynomialSplineFunction_def checkOrder_ok of_nat_diff)

lemma spline_from_coefficients:
  assumes srt: "sorted_wrt (<) xs" and len: "2 \<le> length xs" "length xs < 2 ^ 31"
    and cs: "length cs = length xs - 1" "\<forall>c \<in> set cs. c \<noteq> []"
  shows "\<exists>f. (case createPolynomials cs of
                Inl e \<Rightarrow> Inl e
              | Inr polynomials \<Rightarrow> createPolynomialSplineFunction (map Fin xs) polynomials) = Inr f
           \<and> (\<forall>q co. cs ! segmentIndex xs q = map Fin co \<longrightarrow>
                 f (Fin q) = Some (Inr (Fin (peval co (q - xs ! segmentIndex xs q)))))"
proof -
  from createPolynomials_nth [OF cs(2)] obtain ps where
    ps: "createPolynomials cs = Inr ps" "length ps = length cs"
      "\<forall>i < length cs. ps ! i = polynomialEval (cs ! i) (trim_loop (cs ! i) (length (cs ! i)))"
    by blast
  have lps: "length ps = length xs - 1" using ps(2) cs(1) by simp
  have "splineEval (map Fin xs) ps (Fin q)
          = Some (Inr (Fin (peval co (q - xs ! segmentIndex xs q))))"
    if co: "cs ! segmentIndex xs q = map Fin co" for q co
  proof -
    let ?s = "segmentIndex xs q"
    have s: "?s < length cs" using segmentIndex_less [OF len(1)] cs(1) by simp
    then have "cs ! ?s \<noteq> []" using cs(2) by (metis nth_mem)
    with co have ne: "co \<noteq> []" by auto
    have "ps ! ?s = polynomialEval (map Fin co) (trim_loop (map Fin co) (length co))"
      using ps(3) s co by simp
    then have "(ps ! ?s) (Fin (q - xs ! ?s)) = Fin (peval co (q - xs ! ?s))"
      using polynomialEval_Fin [OF ne] by simp
    then show ?thesis
      using splineEval_sorted [OF srt len lps, of q] by simp
  qed
  then show ?thesis
    using ps(1) createPolynomialSplineFunction_ok [OF srt len(1) lps] by simp
qed

section \<open>The constructors on valid samples\<close>

lemma linear_exists:
  assumes srt: "sorted_wrt (<) xs" and len: "2 \<le> length xs" "length xs < 2 ^ 31"
    and ys: "length ys = length xs"
  shows "\<exists>f. createLinearInterpolator (map Fin xs) (map Fin ys) = Inr f
           \<and> (\<forall>q. f (Fin q) = Some (Inr (Fin
                 (ys ! segmentIndex xs q + (q - xs ! segmentIndex xs q)
                    * (ys ! (segmentIndex xs q + 1) - ys ! segmentIndex xs q)
                    / (xs ! (segmentIndex xs q + 1) - xs ! segmentIndex xs q)))))"
proof -
  define n where "n = length xs - 1"
  define m where "m = map (\<lambda>i. (elem (map Fin ys) (i + 1) - elem (map Fin ys) i)
                      / (elem (map Fin xs) (i + 1) - elem (map Fin xs) i)) [0..<n]"
  define cs where "cs = map (\<lambda>i. [elem (map Fin ys) i, elem m i]) [0..<n]"
  have m: "elem m i = Fin ((ys ! (i + 1) - ys ! i) / (xs ! (i + 1) - xs ! i))" if "i < n" for i
  proof -
    from that srt have "xs ! i < xs ! (i + 1)"
      by (simp add: sorted_wrt_iff_nth_less n_def)
    with that ys show ?thesis
      by (simp add: elem_def m_def n_def)
  qed
  have csi: "cs ! i = map Fin [ys ! i, (ys ! (i + 1) - ys ! i) / (xs ! (i + 1) - xs ! i)]"
    if "i < n" for i
    using that m [OF that] ys by (simp add: cs_def elem_map_Fin n_def)
  have unfold: "createLinearInterpolator (map Fin xs) (map Fin ys) =
      (case createPolynomials cs of
         Inl e \<Rightarrow> Inl e
       | Inr polynomials \<Rightarrow> createPolynomialSplineFunction (map Fin xs) polynomials)"
    using len ys srt
    by (simp add: createLinearInterpolator_def Let_def cs_def m_def n_def checkOrder_ok)
  have "length cs = length xs - 1" "\<forall>c \<in> set cs. c \<noteq> []"
    by (auto simp: cs_def n_def)
  from spline_from_coefficients [OF srt len this] obtain f where
    f: "createLinearInterpolator (map Fin xs) (map Fin ys) = Inr f"
      "\<forall>q co. cs ! segmentIndex xs q = map Fin co \<longrightarrow>
          f (Fin q) = Some (Inr (Fin (peval co (q - xs ! segmentIndex xs q))))"
    unfolding unfold by blast
  have "f (Fin q) = Some (Inr (Fin
                 (ys ! segmentIndex xs q + (q - xs ! segmentIndex xs q)
                    * (ys ! (segmentIndex xs q + 1) - ys ! segmentIndex xs q)
                    / (xs ! (segmentIndex xs q + 1) - xs ! segmentIndex xs q))))" for q
  proof -
    have "segmentIndex xs q < n"
      using segmentIndex_less [OF len(1)] by (simp add: n_def)
    from f(2) [rule_format, OF csi [OF this]] show ?thesis
      by (simp add: peval_def)
  qed
  with f(1) show ?thesis by blast
qed

lemma length_back_step:
  "back_step y h mu z j (b, c, d) = (b', c', d')
     \<Longrightarrow> length b' = length b \<and> length c' = length c \<and> length d' = length d"
  by (auto simp: back_step_def Let_def)

lemma length_fold_back_step:
  "fold (back_step y h mu z) js (b, c, d) = (b', c', d')
     \<Longrightarrow> length b' = length b \<and> length c' = length c \<and> length d' = length d"
proof (induction js arbitrary: b c d)
  case Nil
  then show ?case by simp
next
  case (Cons j js)
  obtain b1 c1 d1 where st: "back_step y h mu z j (b, c, d) = (b1, c1, d1)"
    using prod_cases3 by blast
  with Cons.prems have "fold (back_step y h mu z) js (b1, c1, d1) = (b', c', d')"
    by simp
  from Cons.IH [OF this] length_back_step [OF st] show ?case by simp
qed

section \<open>Errors of the binary search, the evaluators and the constructors\<close>

lemma incomparable_iff: "incomparable u v \<longleftrightarrow> u = NaN \<or> v = NaN"
  by (cases u; cases v) (auto simp: incomparable_def)

lemma binarySearch_loop_error_inspects:
  assumes "binarySearch_loop a key low high = Some r"
  shows "\<forall>e. r = Inl e \<longrightarrow>
        e = InvalidValueError
        \<and> (\<exists>m. inspects a key low high m \<and> incomparable (elem_int a m) key)"
  using assms
proof (induct rule: binarySearch_loop.raw_induct)
  case (1 loop a key low high r)
  note IH = "1"(1) and eq = "1"(2) and real = "1"(3)
  let ?mid = "(low + high) mod 2 ^ 32 div 2"
  show ?case
  proof (intro allI impI)
    fix e assume r: "r = Inl e"
    with eq have lh: "low \<le> high"
      by (auto split: if_splits)
    show "e = InvalidValueError
        \<and> (\<exists>m. inspects a key low high m \<and> incomparable (elem_int a m) key)"
    proof (cases "elem_int a ?mid < key")
      case True
      with eq lh have "loop a key (?mid + 1) high = Some r"
        by (simp add: Let_def)
      moreover from real True lh have "binarySearch_loop a key (?mid + 1) high = Some r"
        by (subst (asm) binarySearch_loop.simps) (simp add: Let_def)
      ultimately have "\<forall>e. r = Inl e \<longrightarrow> e = InvalidValueError
        \<and> (\<exists>m. inspects a key (?mid + 1) high m \<and> incomparable (elem_int a m) key)"
        by (rule IH)
      with r True lh show ?thesis
        by (blast intro: inspects_right [OF _ refl])
    next
      case nlt: False
      show ?thesis
      proof (cases "key < elem_int a ?mid")
        case True
        with eq lh nlt have "loop a key low (?mid - 1) = Some r"
          by (simp add: Let_def)
        moreover from real True nlt lh have "binarySearch_loop a key low (?mid - 1) = Some r"
          by (subst (asm) binarySearch_loop.simps) (simp add: Let_def)
        ultimately have "\<forall>e. r = Inl e \<longrightarrow> e = InvalidValueError
          \<and> (\<exists>m. inspects a key low (?mid - 1) m \<and> incomparable (elem_int a m) key)"
          by (rule IH)
        with r True nlt lh show ?thesis
          by (blast intro: inspects_left [OF _ refl])
      next
        case False
        with eq r lh nlt
        have "e = InvalidValueError" "incomparable (elem_int a ?mid) key"
          by (auto simp: Let_def incomparable_def split: if_splits)
        with lh show ?thesis by (blast intro: inspects_mid)
      qed
    qed
  qed
qed (rule assms)

lemma inspects_error:
  "inspects a key low high m \<Longrightarrow> incomparable (elem_int a m) key
     \<Longrightarrow> binarySearch_loop a key low high = Some (Inl InvalidValueError)"
proof (induction rule: inspects.induct)
  case (inspects_mid low high)
  then show ?case
    by (subst binarySearch_loop.simps) (simp add: incomparable_def Let_def)
next
  case (inspects_right low high mid m)
  then show ?case
    by (subst binarySearch_loop.simps) (simp add: Let_def)
next
  case (inspects_left low high mid m)
  then show ?case
    by (subst binarySearch_loop.simps) (simp add: Let_def)
qed

lemma binarySearch_error_iff:
  "Arrays_binarySearch a key = Some (Inl e) \<longleftrightarrow>
     e = InvalidValueError
     \<and> (\<exists>m. inspects a key 0 (int (length a) - 1) m \<and> incomparable (elem_int a m) key)"
  unfolding Arrays_binarySearch_def
  using binarySearch_loop_error_inspects [of a key 0 "int (length a) - 1" "Inl e"]
    inspects_error [of a key 0 "int (length a) - 1"]
  by blast

lemma binarySearch_error: "Arrays_binarySearch a key = Some (Inl e) \<Longrightarrow> e = InvalidValueError"
  by (simp add: binarySearch_error_iff)

lemma splineEval_error: "splineEval ks ps q = Some (Inl e) \<Longrightarrow> e = InvalidValueError"
  by (auto simp: splineEval_def Let_def split: option.splits sum.splits
      dest: binarySearch_error)

lemma nearestNeighborEval_error:
  "nearestNeighborEval xs ys n q = Some (Inl e) \<Longrightarrow> e = InvalidValueError"
  by (auto simp: nearestNeighborEval_def Let_def split: option.splits sum.splits if_splits
      dest: binarySearch_error)

lemma createPolynomialSplineFunction_result:
  "createPolynomialSplineFunction ks ps = Inr f \<Longrightarrow> f = splineEval ks ps"
  "createPolynomialSplineFunction ks ps = Inl e \<Longrightarrow>
     e = InsufficientKnotsError \<and> length ks < 2
     \<or> e = DimensionMismatchError \<and> 2 \<le> length ks \<and> length ps \<noteq> length ks - 1
     \<or> e = OrderError"
  by (auto simp: createPolynomialSplineFunction_def Let_def
      split: if_splits sum.splits dest: checkOrder_error)

lemma createPolynomials_length:
  "createPolynomials cs = Inr ps \<Longrightarrow> length ps = length cs"
  by (induction cs arbitrary: ps) (auto split: sum.splits)

lemma createPolynomials_nonempty:
  "\<forall>c \<in> set cs. c \<noteq> [] \<Longrightarrow> createPolynomials cs \<noteq> Inl e"
  by (simp add: createPolynomials_ok)


lemma spline_build:
  assumes "MathArrays_checkOrder x = Inr ()" "2 \<le> length x" "length cs = length x - 1"
    "\<forall>c \<in> set cs. c \<noteq> []"
  shows "\<exists>ps. (case createPolynomials cs of
                 Inl e \<Rightarrow> Inl e
               | Inr polynomials \<Rightarrow> createPolynomialSplineFunction x polynomials)
              = Inr (splineEval x ps)"
  using assms
  by (auto simp: createPolynomials_ok createPolynomialSplineFunction_def of_nat_diff)

lemma length_fold_update:
  "length (fold (\<lambda>i xs. xs[i := f i xs]) is xs) = length xs"
  by (induction "is" arbitrary: xs) simp_all

lemma length_akimaFirstDerivatives:
  "length (akimaFirstDerivatives xvals yvals) = length xvals"
  by (simp add: akimaFirstDerivatives_def Let_def length_fold_update)

lemma nearestNeighbor_results:
  "createNearestNeighborInterpolator x y = Inl e \<Longrightarrow> e \<in> construction_errors"
  "createNearestNeighborInterpolator x y = Inr f \<Longrightarrow> f q = Some (Inl e) \<Longrightarrow> e = InvalidValueError"
  by (auto simp: createNearestNeighborInterpolator_def Let_def construction_errors_def
      split: if_splits sum.splits dest: checkOrder_error nearestNeighborEval_error)

lemma linear_results:
  "createLinearInterpolator x y = Inl e \<Longrightarrow> e \<in> construction_errors"
  "createLinearInterpolator x y = Inr f \<Longrightarrow> f q = Some (Inl e) \<Longrightarrow> e = InvalidValueError"
proof -
  have "\<exists>ps. createLinearInterpolator x y = Inr (splineEval x ps)"
    if "length x = length y" "2 \<le> length x" "MathArrays_checkOrder x = Inr ()"
  proof -
    define cs where "cs = map (\<lambda>i. [elem y i,
       elem (map (\<lambda>i. (elem y (i + 1) - elem y i) / (elem x (i + 1) - elem x i))
               [0..<length x - 1]) i]) [0..<length x - 1]"
    have "length cs = length x - 1" "\<forall>c \<in> set cs. c \<noteq> []"
      by (auto simp: cs_def)
    from spline_build [OF that(3,2) this] that show ?thesis
      by (simp add: createLinearInterpolator_def Let_def cs_def)
  qed
  then have cases: "createLinearInterpolator x y = Inl DimensionMismatchError
      \<or> createLinearInterpolator x y = Inl InsufficientPointsError
      \<or> createLinearInterpolator x y = Inl OrderError
      \<or> (\<exists>ps. createLinearInterpolator x y = Inr (splineEval x ps))"
    by (cases "MathArrays_checkOrder x")
      (auto simp: createLinearInterpolator_def Let_def dest: checkOrder_error)
  from cases show "createLinearInterpolator x y = Inl e \<Longrightarrow> e \<in> construction_errors"
    by (auto simp: construction_errors_def)
  from cases show "createLinearInterpolator x y = Inr f \<Longrightarrow> f q = Some (Inl e)
      \<Longrightarrow> e = InvalidValueError"
    by (auto dest: splineEval_error)
qed

lemma computeCubic_results:
  "computeCubicPolyCoefficients x y = Inl e \<Longrightarrow> e \<in> construction_errors"
  "computeCubicPolyCoefficients x y = Inr bcd \<Longrightarrow>
     3 \<le> length x \<and> MathArrays_checkOrder x = Inr ()"
  by (auto simp: computeCubicPolyCoefficients_def Let_def construction_errors_def
      split: if_splits sum.splits prod.splits dest: checkOrder_error)

lemma cubic_results:
  "createCubicSplineInterpolator x y = Inl e \<Longrightarrow> e \<in> construction_errors"
  "createCubicSplineInterpolator x y = Inr f \<Longrightarrow> f q = Some (Inl e) \<Longrightarrow> e = InvalidValueError"
proof -
  have "\<exists>ps. createCubicSplineInterpolator x y = Inr (splineEval x ps)"
    if "computeCubicPolyCoefficients x y = Inr (b, c, d)" for b c d
  proof -
    define cs where "cs = map (\<lambda>i. [elem y i, elem b i, elem c i, elem d i]) [0..<length x - 1]"
    have "length cs = length x - 1" "\<forall>c \<in> set cs. c \<noteq> []"
      by (auto simp: cs_def)
    from computeCubic_results(2) [OF that] have "MathArrays_checkOrder x = Inr ()" "2 \<le> length x"
      by simp_all
    from spline_build [OF this \<open>length cs = length x - 1\<close> \<open>\<forall>c \<in> set cs. c \<noteq> []\<close>] that
    show ?thesis
      by (simp add: createCubicSplineInterpolator_def Let_def cs_def)
  qed
  then have cases: "(\<exists>e \<in> construction_errors. createCubicSplineInterpolator x y = Inl e)
      \<or> (\<exists>ps. createCubicSplineInterpolator x y = Inr (splineEval x ps))"
    using computeCubic_results(1) [of x y]
    by (cases "computeCubicPolyCoefficients x y")
      (auto simp: createCubicSplineInterpolator_def)
  from cases show "createCubicSplineInterpolator x y = Inl e \<Longrightarrow> e \<in> construction_errors"
    by auto
  from cases show "createCubicSplineInterpolator x y = Inr f \<Longrightarrow> f q = Some (Inl e)
      \<Longrightarrow> e = InvalidValueError"
    by (auto dest: splineEval_error)
qed

lemma akima_results:
  "createAkimaSplineInterpolator x y = Inl e \<Longrightarrow> e \<in> construction_errors"
  "createAkimaSplineInterpolator x y = Inr f \<Longrightarrow> f q = Some (Inl e) \<Longrightarrow> e = InvalidValueError"
proof -
  have "\<exists>ps. createAkimaSplineInterpolator x y = Inr (splineEval x ps)"
    if "length x = length y" "5 \<le> length x" "MathArrays_checkOrder x = Inr ()"
  proof -
    define cs where
      "cs = map (hermiteCoefficients x y (akimaFirstDerivatives x y)) [0..<length x - 1]"
    have "length cs = length x - 1" "\<forall>c \<in> set cs. c \<noteq> []"
      by (auto simp: cs_def hermiteCoefficients_def Let_def)
    moreover from that have "2 \<le> length x" by simp
    ultimately show ?thesis
      using spline_build [OF that(3), of cs] that
      by (simp add: createAkimaSplineInterpolator_def interpolateHermiteSorted_def Let_def
          cs_def length_akimaFirstDerivatives)
  qed
  then have cases: "createAkimaSplineInterpolator x y = Inl DimensionMismatchError
      \<or> createAkimaSplineInterpolator x y = Inl InsufficientPointsError
      \<or> createAkimaSplineInterpolator x y = Inl OrderError
      \<or> (\<exists>ps. createAkimaSplineInterpolator x y = Inr (splineEval x ps))"
    by (cases "MathArrays_checkOrder x")
      (auto simp: createAkimaSplineInterpolator_def Let_def dest: checkOrder_error)
  from cases show "createAkimaSplineInterpolator x y = Inl e \<Longrightarrow> e \<in> construction_errors"
    by (auto simp: construction_errors_def)
  from cases show "createAkimaSplineInterpolator x y = Inr f \<Longrightarrow> f q = Some (Inl e)
      \<Longrightarrow> e = InvalidValueError"
    by (auto dest: splineEval_error)
qed

lemma createPolynomialFunction_error_iff:
  "createPolynomialFunction c = Inl e \<longleftrightarrow> c = [] \<and> e = EmptyCoefficientsError"
  by (auto simp: createPolynomialFunction_def Let_def)

section \<open>The nearest-neighbour evaluator on valid samples\<close>

lemma nn_mid:
  assumes srt: "sorted_wrt (<) xs" and len: "2 \<le> length xs" "length xs < 2 ^ 31"
    and ys: "length ys = length xs" and i: "i + 1 < length xs"
  shows "nearestNeighborEval (map Fin xs) ys (length xs) (Fin ((xs ! i + xs ! (i + 1)) / 2))
           = Some (Inr (ys ! (i + 1)))"
proof -
  let ?q = "(xs ! i + xs ! (i + 1)) / 2"
  have lt: "xs ! i < xs ! (i + 1)"
    using srt i by (simp add: sorted_wrt_iff_nth_less)
  then have q: "xs ! i < ?q" "?q < xs ! (i + 1)" by simp_all
  from binarySearch_sorted [OF srt len(2)] obtain r where
    r: "Arrays_binarySearch (map Fin xs) (Fin ?q) = Some (Inr r)" and post: "bs_post xs ?q r"
    by blast
  have ip: "insertionPoint xs ?q = i + 1"
    using srt i q by (intro insertionPoint_sorted) auto
  have neg: "r < 0"
  proof (rule ccontr)
    assume "\<not> r < 0"
    with bs_post_insertionPoint [OF srt post] ip have "nat r = i" by simp
    with post \<open>\<not> r < 0\<close> have "xs ! i = ?q" by (simp add: bs_post_def)
    with q show False by simp
  qed
  with bs_post_insertionPoint [OF srt post] ip have r': "- r - 1 = int i + 1" by simp
  have e1: "elem_int (map Fin xs) (int i) = Fin (xs ! i)"
    using i by (simp add: elem_int_def elem_map_Fin)
  have e2: "elem_int (map Fin xs) (int i + 1) = Fin (xs ! (i + 1))"
    using i by (simp add: elem_int_def elem_map_Fin nat_add_distrib)
  have e3: "elem_int ys (int i + 1) = ys ! (i + 1)"
    using i ys by (simp add: elem_int_def elem_def nat_add_distrib)
  show ?thesis
    using r neg i by (simp add: nearestNeighborEval_def Let_def r' e1 e2 e3)
qed

lemma nearestNeighbor_knots:
  assumes srt: "sorted_wrt (<) xs" and len: "length xs < 2 ^ 31" and ys: "length ys = length xs"
  shows "\<exists>f. createNearestNeighborInterpolator (map Fin xs) (map Fin ys) = Inr f
           \<and> (\<forall>i < length xs. f (Fin (xs ! i)) = Some (Inr (Fin (ys ! i))))"
proof -
  consider (zero) "length xs = 0" | (one) "length xs = 1" | (more) "2 \<le> length xs"
    by linarith
  then show ?thesis
  proof cases
    case zero
    with ys show ?thesis by (simp add: createNearestNeighborInterpolator_def)
  next
    case one
    with ys show ?thesis
      by (simp add: createNearestNeighborInterpolator_def Let_def elem_map_Fin)
  next
    case more
    have c: "createNearestNeighborInterpolator (map Fin xs) (map Fin ys)
               = Inr (nearestNeighborEval (map Fin xs) (map Fin ys) (length xs))"
      using more ys srt
      by (auto simp: createNearestNeighborInterpolator_def Let_def checkOrder_ok)
    have "nearestNeighborEval (map Fin xs) (map Fin ys) (length xs) (Fin (xs ! i))
            = Some (Inr (Fin (ys ! i)))" if i: "i < length xs" for i
    proof -
      from binarySearch_sorted [OF srt len] obtain r where
        r: "Arrays_binarySearch (map Fin xs) (Fin (xs ! i)) = Some (Inr r)"
        and post: "bs_post xs (xs ! i) r"
        by blast
      have "insertionPoint xs (xs ! i) = i + 1"
        using srt i by (intro insertionPoint_sorted) (auto simp: sorted_wrt_iff_nth_less)
      with bs_post_insertionPoint [OF srt post]
      have alt: "(if r < 0 then - r - 1 else r + 1) = int i + 1" by simp
      have nonneg: "0 \<le> r"
      proof (rule ccontr)
        assume neg: "\<not> 0 \<le> r"
        with alt have "i < nat (- r - 1)" by simp
        moreover from post neg have "\<forall>k < nat (- r - 1). xs ! k < xs ! i"
          by (simp add: bs_post_def)
        ultimately have "xs ! i < xs ! i" by blast
        then show False by simp
      qed
      with alt have "r = int i" by simp
      with r i ys show ?thesis
        by (simp add: nearestNeighborEval_def elem_int_def elem_map_Fin)
    qed
    with c show ?thesis by simp
  qed
qed

section \<open>The cubic solver on valid samples\<close>

lemma fold_invariant:
  assumes "\<And>i s. i \<in> set is \<Longrightarrow> P s \<Longrightarrow> P (f i s)" "P s"
  shows "P (fold f is s)"
  using assms by (induction "is" arbitrary: s) simp_all

lemma list_update_all:
  "\<forall>j < n. P (xs ! j) \<Longrightarrow> P v \<Longrightarrow> length xs = n \<Longrightarrow> \<forall>j < n. P (xs[i := v] ! j)"
  by (cases "i < length xs") (auto simp: nth_list_update)

lemma intervalWidths_nth:
  "n < length xs \<Longrightarrow> j < n \<Longrightarrow> elem (intervalWidths (map Fin xs) n) j = Fin (xs ! (j + 1) - xs ! j)"
  by (simp add: intervalWidths_def elem_def)

lemma sweep_step_inv:
  assumes srt: "sorted_wrt (<) xs" and ys: "length ys = length xs" and n: "n = length xs - 1"
    and i: "1 \<le> i" "i < n" and inv: "sweep_inv n s"
  shows "sweep_inv n (sweep_step (map Fin xs) (map Fin ys) (intervalWidths (map Fin xs) n) i s)"
proof -
  obtain mu z where s: "s = (mu, z)" by (cases s)
  from inv s have len: "length mu = n" "length z = n + 1"
    and mu: "\<forall>j < n. \<exists>m. mu ! j = Fin m \<and> 0 \<le> m \<and> m < 1"
    and z: "\<forall>j < n + 1. \<exists>v. z ! j = Fin v"
    by (simp_all add: sweep_inv_def)
  from mu i obtain m where m: "mu ! (i - 1) = Fin m" "0 \<le> m" "m < 1"
    by (metis diff_less less_imp_diff_less less_numeral_extra(1) less_one not_le order_less_trans)
  from z i obtain v where v: "z ! (i - 1) = Fin v"
    by (metis add_lessD1 less_imp_diff_less trans_less_add1)
  have lt: "xs ! (i - 1) < xs ! i" "xs ! i < xs ! (i + 1)"
    using srt i n by (simp_all add: sorted_wrt_iff_nth_less)
  define h0 where "h0 = xs ! i - xs ! (i - 1)"
  define h1 where "h1 = xs ! (i + 1) - xs ! i"
  have hpos: "0 < h0" "0 < h1" using lt by (simp_all add: h0_def h1_def)
  have x2: "xs ! (i + 1) - xs ! (i - 1) = h0 + h1" by (simp add: h0_def h1_def)
  define p where "p = h0 * m"
  define g where "g = 2 * (h0 + h1) - p"
  have "h0 * m \<le> h0 * 1" using m hpos by (intro mult_left_mono) simp_all
  then have p: "p \<le> h0" by (simp add: p_def)
  have g1: "h1 < g" unfolding g_def using hpos p by argo
  have g0: "0 < g" using g1 hpos by argo
  note gpos = g1 g0
  have eh0: "elem (intervalWidths (map Fin xs) n) (i - 1) = Fin h0"
    using intervalWidths_nth [of n xs "i - 1"] i n by (simp add: h0_def)
  have eh1: "elem (intervalWidths (map Fin xs) n) i = Fin h1"
    using intervalWidths_nth [of n xs i] i n by (simp add: h1_def)
  have emu: "elem mu (i - 1) = Fin m" using m i len by (simp add: elem_def)
  have ez: "elem z (i - 1) = Fin v" using v i len by (simp add: elem_def)
  have ex: "elem (map Fin xs) (i + 1) = Fin (xs ! (i + 1))"
    "elem (map Fin xs) (i - 1) = Fin (xs ! (i - 1))"
    using i n by (simp_all add: elem_def)
  have ey: "elem (map Fin ys) (i + 1) = Fin (ys ! (i + 1))"
    "elem (map Fin ys) i = Fin (ys ! i)" "elem (map Fin ys) (i - 1) = Fin (ys ! (i - 1))"
    using i n ys by (simp_all add: elem_def)
  have G: "Fin 2 * (elem (map Fin xs) (i + 1) - elem (map Fin xs) (i - 1))
             - elem (intervalWidths (map Fin xs) n) (i - 1) * elem mu (i - 1) = Fin g"
    using ex eh0 emu x2 by (simp add: g_def p_def)
  have hh: "h0 * h1 \<noteq> 0" using hpos by simp
  obtain zi where step: "sweep_step (map Fin xs) (map Fin ys) (intervalWidths (map Fin xs) n) i s
      = (mu[i := Fin (h1 / g)], z[i := Fin zi])"
    using gpos hh G eh0 eh1 ez ex ey x2
    by (simp add: sweep_step_def s Let_def)
  have "0 \<le> h1 / g" "h1 / g < 1" using gpos hpos by simp_all
  then have "\<forall>j < n. \<exists>m. mu[i := Fin (h1 / g)] ! j = Fin m \<and> 0 \<le> m \<and> m < 1"
    using mu len by (intro list_update_all) auto
  moreover have "\<forall>j < n + 1. \<exists>v. z[i := Fin zi] ! j = Fin v"
    using z len by (intro list_update_all) auto
  ultimately show ?thesis
    using len by (simp add: step sweep_inv_def)
qed

lemma forwardSweep_inv:
  assumes srt: "sorted_wrt (<) xs" and ys: "length ys = length xs" and n: "n = length xs - 1"
    and len: "3 \<le> length xs"
  shows "sweep_inv n (forwardSweep (map Fin xs) (map Fin ys) (intervalWidths (map Fin xs) n) n)"
  unfolding forwardSweep_def
proof (rule fold_invariant)
  show "sweep_inv n ((replicate n 0)[0 := 0], (replicate (n + 1) 0)[0 := 0])"
    by (auto simp: sweep_inv_def zero_number_def nth_list_update simp del: replicate.simps)
next
  fix i s assume "i \<in> set [1..<n]" "sweep_inv n s"
  then show "sweep_inv n (sweep_step (map Fin xs) (map Fin ys) (intervalWidths (map Fin xs) n) i s)"
    using sweep_step_inv [OF srt ys n] by simp
qed

lemma back_step_inv:
  assumes srt: "sorted_wrt (<) xs" and ys: "length ys = length xs" and n: "n = length xs - 1"
    and j: "j < n" and mu: "\<exists>m. elem mu j = Fin m" and z: "\<exists>v. elem z j = Fin v"
    and inv: "back_inv n s"
  shows "back_inv n (back_step (map Fin ys) (intervalWidths (map Fin xs) n) mu z j s)
       \<and> closes xs ys j (back_step (map Fin ys) (intervalWidths (map Fin xs) n) mu z j s)"
proof -
  obtain b c d where s: "s = (b, c, d)" by (cases s)
  from inv s have len: "length b = n" "length c = n + 1" "length d = n"
    and fb: "\<forall>j < n. \<exists>v. b ! j = Fin v" and fc: "\<forall>j < n + 1. \<exists>v. c ! j = Fin v"
    and fd: "\<forall>j < n. \<exists>v. d ! j = Fin v"
    by (simp_all add: back_inv_def)
  from mu obtain m where m: "elem mu j = Fin m" by blast
  from z obtain v where v: "elem z j = Fin v" by blast
  from fc j obtain c1 where c1: "c ! (j + 1) = Fin c1" by (metis add_less_cancel_right)
  define h where "h = xs ! (j + 1) - xs ! j"
  have hpos: "0 < h" using srt j n by (simp add: h_def sorted_wrt_iff_nth_less)
  have eh: "elem (intervalWidths (map Fin xs) n) j = Fin h"
    using intervalWidths_nth [of n xs j] j n by (simp add: h_def)
  have ey: "elem (map Fin ys) (j + 1) = Fin (ys ! (j + 1))" "elem (map Fin ys) j = Fin (ys ! j)"
    using j n ys by (simp_all add: elem_def)
  define cj where "cj = v - m * c1"
  define bj where "bj = (ys ! (j + 1) - ys ! j) / h - h * (c1 + 2 * cj) / 3"
  define dj where "dj = (c1 - cj) / (3 * h)"
  have ec: "elem c (j + 1) = Fin c1" using c1 j len by (simp add: elem_def)
  have ec1: "elem (c[j := Fin cj]) (j + 1) = Fin c1" "elem (c[j := Fin cj]) j = Fin cj"
    using c1 j len by (simp_all add: elem_def)
  have step: "back_step (map Fin ys) (intervalWidths (map Fin xs) n) mu z j s
      = (b[j := Fin bj], c[j := Fin cj], d[j := Fin dj])"
    using hpos m v ec ec1 eh ey
    by (simp add: back_step_def s Let_def cj_def bj_def dj_def)
  have "\<forall>i < n. \<exists>v. b[j := Fin bj] ! i = Fin v"
    using fb len by (intro list_update_all) auto
  moreover have "\<forall>i < n + 1. \<exists>v. c[j := Fin cj] ! i = Fin v"
    using fc len by (intro list_update_all) auto
  moreover have "\<forall>i < n. \<exists>v. d[j := Fin dj] ! i = Fin v"
    using fd len by (intro list_update_all) auto
  ultimately have "back_inv n (b[j := Fin bj], c[j := Fin cj], d[j := Fin dj])"
    using len by (simp add: back_inv_def)
  moreover have "peval [ys ! j, bj, cj, dj] h = ys ! (j + 1)"
    using hpos by (simp add: peval_def bj_def dj_def field_simps)
  then have "closes xs ys j (b[j := Fin bj], c[j := Fin cj], d[j := Fin dj])"
    using j len by (simp add: closes_def h_def)
  ultimately show ?thesis by (simp add: step)
qed

lemma back_step_closes:
  assumes "j < k" "closes xs ys k s"
  shows "closes xs ys k (back_step y h mu z j s)"
proof -
  obtain b c d where s: "s = (b, c, d)" by (cases s)
  with assms show ?thesis
    by (auto simp: closes_def back_step_def Let_def)
qed


lemma cubic_solver_valid:
  assumes srt: "sorted_wrt (<) xs" and ys: "length ys = length xs" and len: "3 \<le> length xs"
    and n: "n = length xs - 1"
  shows "\<exists>b c d. computeCubicPolyCoefficients (map Fin xs) (map Fin ys) = Inr (b, c, d)
           \<and> back_inv n (b, c, d) \<and> closes xs ys (n - 1) (b, c, d)"
proof -
  let ?X = "map Fin xs" and ?Y = "map Fin ys"
  let ?h = "intervalWidths ?X n"
  obtain mu z1 where fs: "forwardSweep ?X ?Y ?h n = (mu, z1)"
    by (cases "forwardSweep ?X ?Y ?h n") blast
  from forwardSweep_inv [OF srt ys n len] fs have
    lmu: "length mu = n" and lz: "length z1 = n + 1"
    and mu: "\<forall>j < n. \<exists>m. mu ! j = Fin m \<and> 0 \<le> m \<and> m < 1"
    and z1: "\<forall>j < n + 1. \<exists>v. z1 ! j = Fin v"
    by (simp_all add: sweep_inv_def)
  define z where "z = z1[n := 0]"
  have z: "\<forall>j < n + 1. \<exists>v. z ! j = Fin v"
    unfolding z_def using z1 lz by (intro list_update_all) (auto simp: zero_number_def)
  have emu: "\<exists>m. elem mu j = Fin m" if "j < n" for j
    using mu lmu that by (auto simp: elem_def)
  have lz': "length z = n + 1" by (simp add: z_def lz)
  have ez: "\<exists>v. elem z j = Fin v" if "j < n" for j
    using z lz' that by (auto simp: elem_def)
  let ?f = "back_step ?Y ?h mu z"
  define s0 where "s0 = (replicate n (0::number), (replicate (n + 1) (0::number))[n := 0],
    replicate n (0::number))"
  have "\<forall>j < n + 1. \<exists>v. (replicate (n + 1) (0::number))[n := 0] ! j = Fin v"
    by (intro list_update_all) (auto simp: zero_number_def simp del: replicate.simps)
  then have inv0: "back_inv n s0"
    by (simp add: back_inv_def s0_def zero_number_def del: replicate.simps)
  from len n have n2: "n = Suc (n - 1)" by simp
  have rv: "rev [0..<n] = (n - 1) # rev [0..<n - 1]"
    by (subst n2) simp
  define s1 where "s1 = ?f (n - 1) s0"
  have P1: "back_inv n s1 \<and> closes xs ys (n - 1) s1"
    unfolding s1_def using len n
    by (intro back_step_inv [OF srt ys n _ emu ez inv0]) simp_all
  have "back_inv n (fold ?f (rev [0..<n - 1]) s1)
      \<and> closes xs ys (n - 1) (fold ?f (rev [0..<n - 1]) s1)"
  proof (rule fold_invariant [where P = "\<lambda>s. back_inv n s \<and> closes xs ys (n - 1) s"])
    fix j s assume j: "j \<in> set (rev [0..<n - 1])"
      and P: "back_inv n s \<and> closes xs ys (n - 1) s"
    then have jn: "j < n" "j < n - 1" by simp_all
    from back_step_inv [OF srt ys n jn(1) emu [OF jn(1)] ez [OF jn(1)]] P
      back_step_closes [OF jn(2)]
    show "back_inv n (?f j s) \<and> closes xs ys (n - 1) (?f j s)" by blast
  qed (rule P1)
  then have res: "back_inv n (backSubstitution ?Y ?h mu z n)
      \<and> closes xs ys (n - 1) (backSubstitution ?Y ?h mu z n)"
    by (simp add: backSubstitution_def rv s1_def s0_def)
  obtain b c d where bcd: "backSubstitution ?Y ?h mu z n = (b, c, d)"
    using prod_cases3 by blast
  have "computeCubicPolyCoefficients ?X ?Y = Inr (b, c, d)"
    using srt ys len fs bcd
    by (simp add: computeCubicPolyCoefficients_def Let_def checkOrder_ok n z_def)
  with res bcd show ?thesis by simp
qed

lemma knots_from_coefficients:
  assumes srt: "sorted_wrt (<) xs" and len: "2 \<le> length xs" "length xs < 2 ^ 31"
    and cs: "length cs = length xs - 1"
    and start: "\<And>k. k < length xs - 1 \<Longrightarrow> \<exists>co. cs ! k = map Fin co \<and> co \<noteq> [] \<and> peval co 0 = ys ! k"
    and last: "\<exists>co. cs ! (length xs - 2) = map Fin co
                 \<and> peval co (xs ! (length xs - 1) - xs ! (length xs - 2)) = ys ! (length xs - 1)"
  shows "\<exists>f. (case createPolynomials cs of
                Inl e \<Rightarrow> Inl e
              | Inr polynomials \<Rightarrow> createPolynomialSplineFunction (map Fin xs) polynomials) = Inr f
           \<and> (\<forall>i < length xs. f (Fin (xs ! i)) = Some (Inr (Fin (ys ! i))))"
proof -
  have ne: "\<forall>c \<in> set cs. c \<noteq> []"
  proof
    fix c assume "c \<in> set cs"
    then obtain k where "k < length cs" "c = cs ! k" by (metis in_set_conv_nth)
    with start [of k] cs show "c \<noteq> []" by auto
  qed
  from spline_from_coefficients [OF srt len cs ne] obtain f where
    f: "(case createPolynomials cs of
           Inl e \<Rightarrow> Inl e
         | Inr polynomials \<Rightarrow> createPolynomialSplineFunction (map Fin xs) polynomials) = Inr f"
    and v: "\<And>q co. cs ! segmentIndex xs q = map Fin co \<Longrightarrow>
          f (Fin q) = Some (Inr (Fin (peval co (q - xs ! segmentIndex xs q))))"
    by blast
  have "f (Fin (xs ! i)) = Some (Inr (Fin (ys ! i)))" if i: "i < length xs" for i
  proof (cases "i < length xs - 1")
    case True
    with segmentIndex_knot [OF srt len(1) i] have seg: "segmentIndex xs (xs ! i) = i" by simp
    from start [OF True] obtain co where "cs ! i = map Fin co" "peval co 0 = ys ! i" by blast
    with v [of "xs ! i" co] seg show ?thesis by simp
  next
    case False
    with i have ie: "i = length xs - 1" by simp
    with segmentIndex_knot [OF srt len(1) i] len(1)
    have seg: "segmentIndex xs (xs ! i) = length xs - 2" by simp
    from last obtain co where "cs ! (length xs - 2) = map Fin co"
      "peval co (xs ! (length xs - 1) - xs ! (length xs - 2)) = ys ! (length xs - 1)" by blast
    with v [of "xs ! i" co] seg ie show ?thesis by simp
  qed
  with f show ?thesis by blast
qed

lemma linear_knots:
  assumes srt: "sorted_wrt (<) xs" and len: "2 \<le> length xs" "length xs < 2 ^ 31"
    and ys: "length ys = length xs"
  shows "\<exists>f. createLinearInterpolator (map Fin xs) (map Fin ys) = Inr f
           \<and> (\<forall>i < length xs. f (Fin (xs ! i)) = Some (Inr (Fin (ys ! i))))"
proof -
  from linear_exists [OF srt len ys] obtain f where
    f: "createLinearInterpolator (map Fin xs) (map Fin ys) = Inr f"
    and v: "\<And>q. f (Fin q) = Some (Inr (Fin
                 (ys ! segmentIndex xs q + (q - xs ! segmentIndex xs q)
                    * (ys ! (segmentIndex xs q + 1) - ys ! segmentIndex xs q)
                    / (xs ! (segmentIndex xs q + 1) - xs ! segmentIndex xs q))))"
    by blast
  have "f (Fin (xs ! i)) = Some (Inr (Fin (ys ! i)))" if i: "i < length xs" for i
  proof (cases "i < length xs - 1")
    case True
    with segmentIndex_knot [OF srt len(1) i] have "segmentIndex xs (xs ! i) = i" by simp
    with v [of "xs ! i"] show ?thesis by simp
  next
    case False
    with i have ie: "i = length xs - 1" by simp
    with segmentIndex_knot [OF srt len(1) i] len(1)
    have seg: "segmentIndex xs (xs ! i) = length xs - 2" by simp
    have s1: "length xs - 2 + 1 = length xs - 1" using len(1) by simp
    have lt: "xs ! (length xs - 2) < xs ! (length xs - 1)"
      using srt len(1) by (simp add: sorted_wrt_iff_nth_less)
    have "f (Fin (xs ! i)) = Some (Inr (Fin
            (ys ! (length xs - 2) + (xs ! i - xs ! (length xs - 2))
               * (ys ! (length xs - 1) - ys ! (length xs - 2))
               / (xs ! (length xs - 1) - xs ! (length xs - 2)))))"
      using v [of "xs ! i"] unfolding seg s1 .
    also have "ys ! (length xs - 2) + (xs ! i - xs ! (length xs - 2))
               * (ys ! (length xs - 1) - ys ! (length xs - 2))
               / (xs ! (length xs - 1) - xs ! (length xs - 2)) = ys ! i"
      unfolding ie using lt by simp
    finally show ?thesis .
  qed
  with f show ?thesis by blast
qed

lemma cubic_knots:
  assumes srt: "sorted_wrt (<) xs" and len: "3 \<le> length xs" "length xs < 2 ^ 31"
    and ys: "length ys = length xs"
  shows "\<exists>f. createCubicSplineInterpolator (map Fin xs) (map Fin ys) = Inr f
           \<and> (\<forall>i < length xs. f (Fin (xs ! i)) = Some (Inr (Fin (ys ! i))))"
proof -
  define n where "n = length xs - 1"
  from cubic_solver_valid [OF srt ys len(1) n_def] obtain b c d where
    bcd: "computeCubicPolyCoefficients (map Fin xs) (map Fin ys) = Inr (b, c, d)"
    and inv: "back_inv n (b, c, d)" and cl: "closes xs ys (n - 1) (b, c, d)"
    by blast
  define cs where
    "cs = map (\<lambda>i. [elem (map Fin ys) i, elem b i, elem c i, elem d i]) [0..<n]"
  have unfold: "createCubicSplineInterpolator (map Fin xs) (map Fin ys) =
      (case createPolynomials cs of
         Inl e \<Rightarrow> Inl e
       | Inr polynomials \<Rightarrow> createPolynomialSplineFunction (map Fin xs) polynomials)"
    by (simp add: createCubicSplineInterpolator_def bcd cs_def n_def)
  from inv have lens: "length b = n" "length c = n + 1" "length d = n"
    and fb: "\<forall>j < n. \<exists>v. b ! j = Fin v" and fc: "\<forall>j < n + 1. \<exists>v. c ! j = Fin v"
    and fd: "\<forall>j < n. \<exists>v. d ! j = Fin v"
    by (simp_all add: back_inv_def)
  have csk: "\<exists>bk ck dk. b ! k = Fin bk \<and> c ! k = Fin ck \<and> d ! k = Fin dk
                \<and> cs ! k = map Fin [ys ! k, bk, ck, dk]" if k: "k < n" for k
  proof -
    from fb fc fd k obtain bk ck dk where "b ! k = Fin bk" "c ! k = Fin ck" "d ! k = Fin dk"
      by (metis less_Suc_eq Suc_eq_plus1)
    with k lens ys show ?thesis
      by (simp add: cs_def elem_def n_def)
  qed
  have 1: "length cs = length xs - 1" by (simp add: cs_def n_def)
  have 2: "\<exists>co. cs ! k = map Fin co \<and> co \<noteq> [] \<and> peval co 0 = ys ! k" if "k < length xs - 1" for k
  proof -
    from csk [of k] that obtain bk ck dk where "cs ! k = map Fin [ys ! k, bk, ck, dk]"
      by (auto simp: n_def)
    moreover have "peval [ys ! k, bk, ck, dk] 0 = ys ! k" by (simp add: peval_def)
    ultimately show ?thesis by blast
  qed
  have n1: "n - 1 = length xs - 2" "n - 1 + 1 = length xs - 1" "n - 1 < n"
    using len(1) by (simp_all add: n_def)
  have 3: "\<exists>co. cs ! (length xs - 2) = map Fin co
             \<and> peval co (xs ! (length xs - 1) - xs ! (length xs - 2)) = ys ! (length xs - 1)"
  proof -
    from cl obtain bk ck dk where k: "b ! (n - 1) = Fin bk" "c ! (n - 1) = Fin ck"
      "d ! (n - 1) = Fin dk"
      "peval [ys ! (n - 1), bk, ck, dk] (xs ! (n - 1 + 1) - xs ! (n - 1)) = ys ! (n - 1 + 1)"
      by (auto simp: closes_def)
    from csk [OF n1(3)] k have "cs ! (n - 1) = map Fin [ys ! (n - 1), bk, ck, dk]" by auto
    with k(4) have A: "cs ! (n - 1) = map Fin [ys ! (n - 1), bk, ck, dk]
        \<and> peval [ys ! (n - 1), bk, ck, dk] (xs ! (n - 1 + 1) - xs ! (n - 1)) = ys ! (n - 1 + 1)"
      by simp
    have e: "length xs - 2 + 1 = length xs - 1" using len(1) by simp
    from A [unfolded n1(1) e] show ?thesis by blast
  qed
  from len have len2: "2 \<le> length xs" by simp
  from knots_from_coefficients [OF srt len2 len(2) 1 2 3] show ?thesis
    unfolding unfold by simp
qed

section \<open>The Akima derivatives on valid samples\<close>

lemma all_Fin_map: "\<forall>j < length l. \<exists>v. l ! j = Fin v \<Longrightarrow> \<exists>fs. l = map Fin fs"
proof (induction l)
  case Nil
  then show ?case by simp
next
  case (Cons a l)
  from Cons.prems have "\<forall>j < length l. \<exists>v. l ! j = Fin v" by auto
  with Cons.IH obtain fs where "l = map Fin fs" by blast
  moreover from Cons.prems obtain v where "a = Fin v" by auto
  ultimately have "a # l = map Fin (v # fs)" by simp
  then show ?case by (rule exI)
qed

lemma differentiateThreePoint_Fin:
  assumes "sorted_wrt (<) xs" "length ys = length xs" "k < length xs"
    "a < b" "b < c" "c < length xs"
  shows "\<exists>v. differentiateThreePoint (map Fin xs) (map Fin ys) k a b c = Fin v"
proof -
  have lt: "xs ! a < xs ! b" "xs ! b < xs ! c"
    using assms by (simp_all add: sorted_wrt_iff_nth_less)
  define t1 where "t1 = xs ! b - xs ! a"
  define t2 where "t2 = xs ! c - xs ! a"
  have t: "0 < t1" "t1 < t2" using lt by (simp_all add: t1_def t2_def)
  then have "0 < t2 * (t2 - t1)" by simp
  then have nz: "t2 * t2 - t1 * t2 \<noteq> 0" "t1 \<noteq> 0"
    using t by (simp_all add: algebra_simps)
  have e: "elem (map Fin xs) a = Fin (xs ! a)" "elem (map Fin xs) b = Fin (xs ! b)"
    "elem (map Fin xs) c = Fin (xs ! c)" "elem (map Fin xs) k = Fin (xs ! k)"
    "elem (map Fin ys) a = Fin (ys ! a)" "elem (map Fin ys) b = Fin (ys ! b)"
    "elem (map Fin ys) c = Fin (ys ! c)"
    using assms by (simp_all add: elem_def)
  show ?thesis
    using nz by (simp add: differentiateThreePoint_def Let_def e t1_def t2_def)
qed

lemma akimaDerivative_Fin:
  assumes srt: "sorted_wrt (<) xs" and i: "1 \<le> i" "i + 1 < length xs"
    and d: "elem differences (i - 1) = Fin d0" "elem differences i = Fin d1"
    and w: "elem weights (i + 1) = Fin p" "elem weights (i - 1) = Fin m" "0 \<le> p" "0 \<le> m"
  shows "\<exists>v. akimaDerivative (map Fin xs) differences weights i = Fin v"
proof -
  have lt: "xs ! (i - 1) < xs ! (i + 1)"
    using srt i by (simp add: sorted_wrt_iff_nth_less)
  have e: "elem (map Fin xs) i = Fin (xs ! i)" "elem (map Fin xs) (i + 1) = Fin (xs ! (i + 1))"
    "elem (map Fin xs) (i - 1) = Fin (xs ! (i - 1))"
    using i by (simp_all add: elem_def)
  show ?thesis
  proof (cases "\<bar>p\<bar> < 1 / 2 ^ 52 \<and> \<bar>m\<bar> < 1 / 2 ^ 52")
    case True
    then show ?thesis
      using lt e d w(1,2) by (simp add: akimaDerivative_def Let_def EPSILON_def)
  next
    case False
    with w(3,4) have "0 < p + m" by auto
    then have "p + m \<noteq> 0" by simp
    with False show ?thesis
      using e d w(1,2) by (simp add: akimaDerivative_def Let_def EPSILON_def)
  qed
qed

lemma akimaFirstDerivatives_Fin:
  assumes srt: "sorted_wrt (<) xs" and ys: "length ys = length xs" and len: "5 \<le> length xs"
  shows "\<exists>fs. akimaFirstDerivatives (map Fin xs) (map Fin ys) = map Fin fs
           \<and> length fs = length xs"
proof -
  define n where "n = length xs"
  let ?X = "map Fin xs" and ?Y = "map Fin ys"
  define D where "D = akimaDifferences ?X ?Y"
  define W where "W = akimaWeights D n"
  define F0 where "F0 = fold (\<lambda>i fd. fd[i := akimaDerivative ?X D W i])
                        [2..<n - 2] (replicate n 0)"
  have D: "\<exists>v. elem D i = Fin v" if "i < n - 1" for i
  proof -
    from that srt have "xs ! i < xs ! (i + 1)"
      by (simp add: sorted_wrt_iff_nth_less n_def)
    with that ys show ?thesis by (simp add: D_def akimaDifferences_def elem_def n_def)
  qed
  let ?PW = "\<lambda>w. length w = n - 1 \<and> (\<forall>j < n - 1. \<exists>v. w ! j = Fin v \<and> 0 \<le> v)"
  have "?PW W"
    unfolding W_def akimaWeights_def
  proof (rule fold_invariant [where P = ?PW])
    show "?PW (replicate (n - 1) 0)" by (simp add: zero_number_def)
  next
    fix i w assume i: "i \<in> set [1..<n - 1]" and w: "?PW w"
    from i have "i < n - 1" "i - 1 < n - 1" by auto
    from D [OF this(1)] D [OF this(2)] obtain a b where
      "elem D i = Fin a" "elem D (i - 1) = Fin b"
      by blast
    then have "\<bar>elem D i - elem D (i - 1)\<bar> = Fin \<bar>a - b\<bar>" by simp
    moreover have "\<forall>j < n - 1. \<exists>v. w[i := Fin \<bar>a - b\<bar>] ! j = Fin v \<and> 0 \<le> v"
      using w by (intro list_update_all) auto
    ultimately show "?PW (w[i := \<bar>elem D i - elem D (i - 1)\<bar>])"
      using w by simp
  qed
  then have W: "\<exists>v. elem W j = Fin v \<and> 0 \<le> v" if "j < n - 1" for j
    using that by (simp add: elem_def)
  let ?PF = "\<lambda>fd. length fd = n \<and> (\<forall>j < n. \<exists>v. fd ! j = Fin v)"
  have "?PF F0"
    unfolding F0_def
  proof (rule fold_invariant [where P = ?PF])
    show "?PF (replicate n 0)" by (simp add: zero_number_def)
  next
    fix i fd assume i: "i \<in> set [2..<n - 2]" and fd: "?PF fd"
    then have i': "1 \<le> i" "i + 1 < length xs" "i - 1 < n - 1" "i < n - 1" "i + 1 < n - 1"
      by (auto simp: n_def)
    from D [OF i'(3)] D [OF i'(4)] obtain d0 d1 where
      d: "elem D (i - 1) = Fin d0" "elem D i = Fin d1" by blast
    from W [OF i'(5)] W [OF i'(3)] obtain p m where
      w: "elem W (i + 1) = Fin p" "elem W (i - 1) = Fin m" "0 \<le> p" "0 \<le> m" by blast
    from akimaDerivative_Fin [OF srt i'(1,2) d w] obtain v where
      "akimaDerivative ?X D W i = Fin v" by blast
    moreover have "\<forall>j < n. \<exists>u. fd[i := Fin v] ! j = Fin u"
      using fd by (intro list_update_all) auto
    ultimately show "?PF (fd[i := akimaDerivative ?X D W i])"
      using fd by simp
  qed
  have d3: "\<exists>v. differentiateThreePoint ?X ?Y 0 0 1 2 = Fin v"
    "\<exists>v. differentiateThreePoint ?X ?Y 1 0 1 2 = Fin v"
    "\<exists>v. differentiateThreePoint ?X ?Y (n - 2) (n - 3) (n - 2) (n - 1) = Fin v"
    "\<exists>v. differentiateThreePoint ?X ?Y (n - 1) (n - 3) (n - 2) (n - 1) = Fin v"
    using len by (auto intro!: differentiateThreePoint_Fin [OF srt ys] simp: n_def)
  then obtain v0 v1 v2 v3 where v:
    "differentiateThreePoint ?X ?Y 0 0 1 2 = Fin v0"
    "differentiateThreePoint ?X ?Y 1 0 1 2 = Fin v1"
    "differentiateThreePoint ?X ?Y (n - 2) (n - 3) (n - 2) (n - 1) = Fin v2"
    "differentiateThreePoint ?X ?Y (n - 1) (n - 3) (n - 2) (n - 1) = Fin v3"
    by blast
  define F1 where "F1 = F0[0 := Fin v0]"
  define F2 where "F2 = F1[1 := Fin v1]"
  define F3 where "F3 = F2[n - 2 := Fin v2]"
  define F4 where "F4 = F3[n - 1 := Fin v3]"
  have "?PF F1" unfolding F1_def using \<open>?PF F0\<close> by (intro conjI list_update_all) auto
  then have "?PF F2" unfolding F2_def by (intro conjI list_update_all) auto
  then have "?PF F3" unfolding F3_def by (intro conjI list_update_all) auto
  then have PF4: "?PF F4" unfolding F4_def by (intro conjI list_update_all) auto
  have "akimaFirstDerivatives ?X ?Y = F4"
    using v
    by (simp add: akimaFirstDerivatives_def Let_def F4_def F3_def F2_def F1_def F0_def W_def D_def
        n_def)
  moreover from PF4 all_Fin_map [of F4] obtain fs where "F4 = map Fin fs" by auto
  moreover from this PF4 have "length fs = length xs" by (auto simp: n_def)
  ultimately show ?thesis by auto
qed

lemma hermiteCoefficients_Fin:
  assumes srt: "sorted_wrt (<) xs" and ys: "length ys = length xs" and fs: "length fs = length xs"
    and i: "i + 1 < length xs"
  shows "\<exists>co. hermiteCoefficients (map Fin xs) (map Fin ys) (map Fin fs) i = map Fin co
           \<and> co \<noteq> [] \<and> peval co 0 = ys ! i
           \<and> peval co (xs ! (i + 1) - xs ! i) = ys ! (i + 1)"
proof -
  define w where "w = xs ! (i + 1) - xs ! i"
  have w: "0 < w" using srt i by (simp add: w_def sorted_wrt_iff_nth_less)
  define co where "co = [ys ! i, fs ! i,
      (3 * (ys ! (i + 1) - ys ! i) / w - 2 * fs ! i - fs ! (i + 1)) / w,
      (2 * (ys ! i - ys ! (i + 1)) / w + fs ! i + fs ! (i + 1)) / (w * w)]"
  have e: "elem (map Fin xs) (i + 1) = Fin (xs ! (i + 1))" "elem (map Fin xs) i = Fin (xs ! i)"
    "elem (map Fin ys) (i + 1) = Fin (ys ! (i + 1))" "elem (map Fin ys) i = Fin (ys ! i)"
    "elem (map Fin fs) (i + 1) = Fin (fs ! (i + 1))" "elem (map Fin fs) i = Fin (fs ! i)"
    using i ys fs by (simp_all add: elem_def)
  have "hermiteCoefficients (map Fin xs) (map Fin ys) (map Fin fs) i = map Fin co"
    using w e by (simp add: hermiteCoefficients_def Let_def co_def w_def)
  moreover have "peval co 0 = ys ! i" by (simp add: co_def peval_def)
  moreover have "peval co w = ys ! (i + 1)"
    using w by (simp add: co_def peval_def field_simps)
  moreover have "co \<noteq> []" by (simp add: co_def)
  ultimately show ?thesis unfolding w_def by blast
qed

lemma akima_knots:
  assumes srt: "sorted_wrt (<) xs" and len: "5 \<le> length xs" "length xs < 2 ^ 31"
    and ys: "length ys = length xs"
  shows "\<exists>f. createAkimaSplineInterpolator (map Fin xs) (map Fin ys) = Inr f
           \<and> (\<forall>i < length xs. f (Fin (xs ! i)) = Some (Inr (Fin (ys ! i))))"
proof -
  from akimaFirstDerivatives_Fin [OF srt ys len(1)] obtain fs where
    fs: "akimaFirstDerivatives (map Fin xs) (map Fin ys) = map Fin fs" "length fs = length xs"
    by blast
  define cs where
    "cs = map (hermiteCoefficients (map Fin xs) (map Fin ys) (map Fin fs)) [0..<length xs - 1]"
  have unfold: "createAkimaSplineInterpolator (map Fin xs) (map Fin ys) =
      (case createPolynomials cs of
         Inl e \<Rightarrow> Inl e
       | Inr polynomials \<Rightarrow> createPolynomialSplineFunction (map Fin xs) polynomials)"
    using len ys srt fs
    by (simp add: createAkimaSplineInterpolator_def interpolateHermiteSorted_def Let_def
        checkOrder_ok cs_def)
  have csk: "\<exists>co. cs ! k = map Fin co \<and> co \<noteq> [] \<and> peval co 0 = ys ! k
                \<and> peval co (xs ! (k + 1) - xs ! k) = ys ! (k + 1)" if "k < length xs - 1" for k
    using hermiteCoefficients_Fin [OF srt ys fs(2), of k] that by (simp add: cs_def)
  have 1: "length cs = length xs - 1" by (simp add: cs_def)
  have 2: "\<exists>co. cs ! k = map Fin co \<and> co \<noteq> [] \<and> peval co 0 = ys ! k" if "k < length xs - 1" for k
    using csk [OF that] by blast
  have e: "length xs - 2 + 1 = length xs - 1" "length xs - 2 < length xs - 1"
    using len(1) by simp_all
  have 3: "\<exists>co. cs ! (length xs - 2) = map Fin co
             \<and> peval co (xs ! (length xs - 1) - xs ! (length xs - 2)) = ys ! (length xs - 1)"
    using csk [OF e(2)] unfolding e(1) by blast
  from len have len2: "2 \<le> length xs" by simp
  from knots_from_coefficients [OF srt len2 len(2) 1 2 3] show ?thesis
    unfolding unfold by simp
qed

text \<open>
  The order check on finite numbers fails on every sequence that is not strictly
  increasing; a search for NaN fails at the first element it inspects; the back
  substitution leaves \<open>c[n]\<close> as it finds it.
\<close>

lemma checkOrder_unsorted:
  "\<not> sorted_wrt (<) xs \<Longrightarrow> MathArrays_checkOrder (map Fin xs) = Inl OrderError"
proof -
  assume "\<not> sorted_wrt (<) xs"
  then have "MathArrays_checkOrder (map Fin xs) \<noteq> Inr ()"
    by (simp add: checkOrder_sorted)
  then obtain e where e: "MathArrays_checkOrder (map Fin xs) = Inl e"
    by (cases "MathArrays_checkOrder (map Fin xs)") auto
  with checkOrder_error [OF e] show ?thesis by simp
qed

lemma binarySearch_NaN:
  "0 < length a \<Longrightarrow> Arrays_binarySearch a NaN = Some (Inl InvalidValueError)"
  unfolding Arrays_binarySearch_def
  by (subst binarySearch_loop.simps) (simp add: Let_def)

lemma splineEval_NaN:
  "0 < length knots2 \<Longrightarrow> splineEval knots2 polynomials NaN = Some (Inl InvalidValueError)"
  by (simp add: splineEval_def binarySearch_NaN)

lemma back_step_keeps:
  "back_step y h mu z j (b, c, d) = (b', c', d') \<Longrightarrow> j \<noteq> n \<Longrightarrow> c' ! n = c ! n"
  by (auto simp: back_step_def Let_def)

lemma fold_back_step_keeps:
  "fold (back_step y h mu z) js (b, c, d) = (b', c', d') \<Longrightarrow> n \<notin> set js \<Longrightarrow> c' ! n = c ! n"
proof (induction js arbitrary: b c d)
  case Nil
  then show ?case by simp
next
  case (Cons j js)
  obtain b1 c1 d1 where st: "back_step y h mu z j (b, c, d) = (b1, c1, d1)"
    using prod_cases3 by blast
  with Cons.prems have "fold (back_step y h mu z) js (b1, c1, d1) = (b', c', d')"
    by simp
  from Cons.IH [OF this] Cons.prems(2) back_step_keeps [OF st, of n] show ?case by simp
qed


section \<open>What the constructors write and what their closures capture\<close>

lemma frame_refl [simp]: "frame h h"
  by (simp add: frame_def)

lemma frame_trans:
  assumes "frame a b" "frame b c"
  shows "frame a c"
proof -
  from assms have le: "length a \<le> length b" "length b \<le> length c"
    and tk: "take (length a) b = a" "take (length b) c = b"
    by (simp_all add: frame_def)
  have "take (length a) (take (length b) c) = take (length a) c"
    using le(1) by (simp add: min_absorb1)
  with tk have "take (length a) c = a" by simp
  with le show ?thesis by (simp add: frame_def)
qed

lemma frame_length: "frame h h' \<Longrightarrow> length h \<le> length h'"
  by (simp add: frame_def)

lemma frame_nth:
  assumes "frame h h'" "a < length h"
  shows "h' ! a = h ! a"
proof -
  from assms(1) have "take (length h) h' = h" by (simp add: frame_def)
  then have "h ! a = take (length h) h' ! a" by simp
  also have "\<dots> = h' ! a" using assms(2) by simp
  finally show ?thesis by simp
qed

lemma frame_new_array:
  "new_array h contents = (h1, a) \<Longrightarrow> frame h h1 \<and> a = length h \<and> length h1 = Suc (length h)"
  by (auto simp: new_array_def frame_def)

lemma frame_slice:
  "slice h c = (h1, a) \<Longrightarrow> frame h h1 \<and> a = length h \<and> length h1 = Suc (length h)"
  by (simp add: slice_def frame_new_array)

lemma frame_store:
  "frame h0 h \<Longrightarrow> length h0 \<le> a \<Longrightarrow> frame h0 (store h a contents)"
  by (simp add: frame_def store_def)

lemma length_store [simp]: "length (store h a contents) = length h"
  by (simp add: store_def)

lemma frame_assign:
  "frame h0 h \<Longrightarrow> length h0 \<le> a \<Longrightarrow> frame h0 (assign h a i v)"
  by (simp add: assign_def frame_store)

lemma length_assign [simp]: "length (assign h a i v) = length h"
  by (simp add: assign_def)

lemma fold_frame:
  assumes "\<And>i hp. frame h0 hp \<and> length hp = n \<Longrightarrow> frame h0 (f i hp) \<and> length (f i hp) = n"
    and "frame h0 h \<and> length h = n"
  shows "frame h0 (fold f is h) \<and> length (fold f is h) = n"
  using assms(2) by (induction "is" arbitrary: h) (simp_all add: assms(1))

lemma polynomialFunction_frame:
  assumes "h_createPolynomialFunction h c = (h1, r)"
  shows "frame h h1 \<and> length h1 = Suc (length h)
       \<and> (\<forall>p. r = Inr p \<longrightarrow> polynomial_addr p = length h)"
proof -
  obtain h2 a where s: "slice h c = (h2, a)" by (cases "slice h c")
  from frame_slice [OF s] have fs: "frame h h2" "a = length h" "length h2 = Suc (length h)"
    by simp_all
  from assms s have "h1 = h2"
    by (simp add: h_createPolynomialFunction_def Let_def split: if_splits)
  moreover from assms s have "\<forall>p. r = Inr p \<longrightarrow> polynomial_addr p = a"
    by (simp add: h_createPolynomialFunction_def Let_def split: if_splits) auto
  ultimately show ?thesis using fs by simp
qed

lemma createPolynomials_frame:
  assumes "h_createPolynomials row cf is h = (h', r)" "frame h0 h" "length h0 \<le> cf"
  shows "frame h0 h' \<and> length h \<le> length h'
       \<and> (\<forall>ps. r = Inr ps \<longrightarrow> (\<forall>p \<in> set ps. length h \<le> polynomial_addr p
                                      \<and> polynomial_addr p < length h'))"
  using assms
proof (induction "is" arbitrary: h h' r)
  case Nil
  then show ?case by auto
next
  case (Cons i "is")
  let ?hs = "store h cf (row h i)"
  obtain h1 r1 where p: "h_createPolynomialFunction ?hs cf = (h1, r1)"
    by (cases "h_createPolynomialFunction ?hs cf")
  from polynomialFunction_frame [OF p] have
    f1: "frame ?hs h1" and l1: "length h1 = Suc (length h)"
    and a1: "\<forall>p. r1 = Inr p \<longrightarrow> polynomial_addr p = length h"
    by simp_all
  have f01: "frame h0 h1"
    using frame_store [OF Cons.prems(2,3)] f1 by (rule frame_trans)
  show ?case
  proof (cases r1)
    case (Inl e)
    with Cons.prems(1) p have "h' = h1" "r = Inl e" by simp_all
    with f01 l1 show ?thesis by simp
  next
    case (Inr p1)
    obtain h2 r2 where rest: "h_createPolynomials row cf is h1 = (h2, r2)"
      by (cases "h_createPolynomials row cf is h1")
    from Cons.IH [OF rest f01 Cons.prems(3)] have
      f2: "frame h0 h2" and l2: "length h1 \<le> length h2"
      and a2: "\<forall>ps. r2 = Inr ps \<longrightarrow> (\<forall>p \<in> set ps. length h1 \<le> polynomial_addr p
                                      \<and> polynomial_addr p < length h2)"
      by simp_all
    from Cons.prems(1) p Inr rest have h': "h' = h2"
      and r: "r = (case r2 of Inl e \<Rightarrow> Inl e | Inr ps \<Rightarrow> Inr (p1 # ps))"
      by (auto split: sum.splits)
    from a1 Inr have p1: "polynomial_addr p1 = length h" by simp
    show ?thesis
    proof (cases r2)
      case (Inl e)
      with r f2 h' l1 l2 show ?thesis by simp
    next
      case r2: (Inr ps)
      have "length h \<le> polynomial_addr p \<and> polynomial_addr p < length h2"
        if "p \<in> set (p1 # ps)" for p
      proof (cases "p = p1")
        case True
        with p1 l1 l2 show ?thesis by simp
      next
        case False
        with that have "p \<in> set ps" by simp
        with a2 r2 have "length h1 \<le> polynomial_addr p \<and> polynomial_addr p < length h2"
          by blast
        with l1 show ?thesis by simp
      qed
      with r r2 f2 h' l1 l2 show ?thesis by simp
    qed
  qed
qed

lemma splineFunction_frame:
  assumes "h_createPolynomialSplineFunction h knots ps = (h', r)"
  shows "frame h h' \<and> length h' = Suc (length h)
       \<and> (\<forall>clo. r = Inr clo \<longrightarrow> clo = SplineFunction (length h) ps)"
proof -
  obtain h1 a where s: "slice h knots = (h1, a)" by (cases "slice h knots")
  with assms frame_slice [OF s] show ?thesis
    by (auto simp: h_createPolynomialSplineFunction_def Let_def split: if_splits sum.splits)
qed

lemma polynomials_then_spline:
  assumes ps: "h_createPolynomials row cf is h = (h1, r1)"
    and res: "(case (h1, r1) of
                 (h1, Inl e) \<Rightarrow> (h1, Inl e)
               | (h1, Inr polynomials) \<Rightarrow> h_createPolynomialSplineFunction h1 knots polynomials)
              = (h', r)"
    and fr: "frame h0 h" "length h0 \<le> cf"
  shows "frame h0 h' \<and> fresh_closure h0 h' r"
proof -
  from createPolynomials_frame [OF ps fr] have
    f1: "frame h0 h1" and l1: "length h \<le> length h1"
    and a1: "\<forall>ps. r1 = Inr ps \<longrightarrow> (\<forall>p \<in> set ps. length h \<le> polynomial_addr p
                                      \<and> polynomial_addr p < length h1)"
    by simp_all
  show ?thesis
  proof (cases r1)
    case (Inl e)
    with res f1 show ?thesis by (auto simp: fresh_closure_def)
  next
    case (Inr polys)
    with res have sp: "h_createPolynomialSplineFunction h1 knots polys = (h', r)" by simp
    from splineFunction_frame [OF sp] have
      f2: "frame h1 h'" and l2: "length h' = Suc (length h1)"
      and c: "\<forall>clo. r = Inr clo \<longrightarrow> clo = SplineFunction (length h1) polys"
      by simp_all
    have "frame h0 h'" using f1 f2 by (rule frame_trans)
    moreover have "fresh_closure h0 h' r"
      unfolding fresh_closure_def
    proof (intro allI impI ballI)
      fix clo a assume ra: "r = Inr clo" "a \<in> captured clo"
      from c ra(1) have "clo = SplineFunction (length h1) polys" by blast
      with ra(2) consider "a = length h1"
        | p where "p \<in> set polys" "a = polynomial_addr p" by auto
      then show "length h0 \<le> a \<and> a < length h'"
      proof cases
        case 1
        with l2 frame_length [OF f1] show ?thesis by simp
      next
        case 2
        with a1 Inr have "length h \<le> a \<and> a < length h1" by blast
        with l2 frame_length [OF fr(1)] show ?thesis by simp
      qed
    qed
    ultimately show ?thesis by simp
  qed
qed

lemma fresh_closure_Inl [simp]: "fresh_closure h h' (Inl e)"
  by (simp add: fresh_closure_def)

lemma nearestNeighbor_frame:
  assumes "h_createNearestNeighborInterpolator h xvals yvals = (h', r)"
  shows "frame h h' \<and> fresh_closure h h' r"
proof -
  obtain h1 xvals2 where s1: "slice h xvals = (h1, xvals2)" by (cases "slice h xvals")
  obtain h2 yvals2 where s2: "slice h1 yvals = (h2, yvals2)" by (cases "slice h1 yvals")
  from frame_slice [OF s1] frame_slice [OF s2] have
    f: "frame h h1" "frame h1 h2" and a: "xvals2 = length h" "yvals2 = Suc (length h)"
    and l: "length h2 = Suc (Suc (length h))"
    by simp_all
  have f2: "frame h h2" using f by (rule frame_trans)
  from assms s1 s2 have h': "h' = h2"
    by (simp add: h_createNearestNeighborInterpolator_def Let_def split: if_splits sum.splits)
  from assms s1 s2 have "r = Inr clo \<Longrightarrow> captured clo \<subseteq> {xvals2, yvals2}" for clo
    by (auto simp: h_createNearestNeighborInterpolator_def Let_def split: if_splits sum.splits)
  then have "fresh_closure h h2 r"
    unfolding fresh_closure_def using a l by fastforce
  with f2 h' show ?thesis by simp
qed

lemma linear_frame:
  assumes "h_createLinearInterpolator h x y = (h', r)"
  shows "frame h h' \<and> fresh_closure h h' r"
proof (cases "length (h ! x) \<noteq> length (h ! y) \<or> length (h ! x) < 2
              \<or> (\<exists>e. MathArrays_checkOrder (h ! x) = Inl e)")
  case True
  with assms have "h' = h" "\<exists>e. r = Inl e"
    by (auto simp: h_createLinearInterpolator_def Let_def split: if_splits sum.splits)
  then show ?thesis by auto
next
  case False
  then have ok: "(length (h ! x) \<noteq> length (h ! y)) = False" "(length (h ! x) < 2) = False"
    "MathArrays_checkOrder (h ! x) = Inr ()"
    by (auto intro: sum.exhaust [of "MathArrays_checkOrder (h ! x)"])
  obtain h1 m where a1: "new_array h (replicate (length (h ! x) - 1) 0) = (h1, m)"
    by (cases "new_array h (replicate (length (h ! x) - 1) (0::number))")
  define h2 where "h2 = fold (\<lambda>i hp. assign hp m i
                                     ((elem (hp ! y) (i + 1) - elem (hp ! y) i)
                                        / (elem (hp ! x) (i + 1) - elem (hp ! x) i)))
                               [0..<length (h ! x) - 1] h1"
  obtain h3 cf where a3: "new_array h2 (replicate 2 0) = (h3, cf)"
    by (cases "new_array h2 (replicate 2 (0::number))")
  obtain h4 r4 where ps:
    "h_createPolynomials (\<lambda>hp i. [elem (hp ! y) i, elem (hp ! m) i]) cf
       [0..<length (h ! x) - 1] h3 = (h4, r4)"
    by (cases "h_createPolynomials (\<lambda>hp i. [elem (hp ! y) i, elem (hp ! m) i]) cf
       [0..<length (h ! x) - 1] h3")
  from frame_new_array [OF a1] have f1: "frame h h1" and m: "m = length h" by simp_all
  have f2: "frame h h2"
    unfolding h2_def using f1 m by (intro fold_invariant [where P = "frame h"] frame_assign) simp_all
  from frame_new_array [OF a3] have f23: "frame h2 h3" and cf: "cf = length h2" by simp_all
  have f3: "frame h h3" using f2 f23 by (rule frame_trans)
  have cf': "length h \<le> cf" using cf frame_length [OF f2] by simp
  have res: "(case (h4, r4) of
                 (h4, Inl e) \<Rightarrow> (h4, Inl e)
               | (h4, Inr polynomials) \<Rightarrow> h_createPolynomialSplineFunction h4 x polynomials)
              = (h', r)"
    using assms
    unfolding h_createLinearInterpolator_def Let_def ok if_False sum.case a1 prod.case
      h2_def [symmetric] a3 ps .
  from polynomials_then_spline [OF ps res f3 cf'] show ?thesis .
qed

lemma hermite_frame:
  assumes "h_interpolateHermiteSorted h xvals yvals fd = (h', r)" "frame h0 h"
  shows "frame h0 h' \<and> fresh_closure h0 h' r"
proof (cases "length (h ! xvals) \<noteq> length (h ! yvals) \<or> length (h ! xvals) \<noteq> length (h ! fd)
              \<or> length (h ! xvals) < 2")
  case True
  with assms(1) have "h' = h" "\<exists>e. r = Inl e"
    by (auto simp: h_interpolateHermiteSorted_def Let_def split: if_splits)
  with assms(2) show ?thesis by auto
next
  case False
  then have ok: "(length (h ! xvals) \<noteq> length (h ! yvals)
                   \<or> length (h ! xvals) \<noteq> length (h ! fd)) = False"
    "(length (h ! xvals) < 2) = False"
    by auto
  obtain h1 cf where a1: "new_array h (replicate 4 0) = (h1, cf)"
    by (cases "new_array h (replicate 4 (0::number))")
  obtain h2 r2 where ps:
    "h_createPolynomials (\<lambda>hp. hermiteCoefficients (hp ! xvals) (hp ! yvals) (hp ! fd)) cf
       [0..<length (h ! xvals) - 1] h1 = (h2, r2)"
    by (cases "h_createPolynomials (\<lambda>hp. hermiteCoefficients (hp ! xvals) (hp ! yvals) (hp ! fd))
       cf [0..<length (h ! xvals) - 1] h1")
  from frame_new_array [OF a1] have f1: "frame h h1" and cf: "cf = length h" by simp_all
  have f01: "frame h0 h1" using assms(2) f1 by (rule frame_trans)
  have cf': "length h0 \<le> cf" using cf frame_length [OF assms(2)] by simp
  have res: "(case (h2, r2) of
                 (h2, Inl e) \<Rightarrow> (h2, Inl e)
               | (h2, Inr polynomials) \<Rightarrow> h_createPolynomialSplineFunction h2 xvals polynomials)
              = (h', r)"
    using assms(1)
    unfolding h_interpolateHermiteSorted_def Let_def ok if_False a1 prod.case ps .
  from polynomials_then_spline [OF ps res f01 cf'] show ?thesis .
qed

lemma akima_frame:
  assumes "h_createAkimaSplineInterpolator h xvals yvals = (h', r)"
  shows "frame h h' \<and> fresh_closure h h' r"
proof (cases "length (h ! xvals) \<noteq> length (h ! yvals) \<or> length (h ! xvals) < 5
              \<or> (\<exists>e. MathArrays_checkOrder (h ! xvals) = Inl e)")
  case True
  with assms have "h' = h" "\<exists>e. r = Inl e"
    by (auto simp: h_createAkimaSplineInterpolator_def Let_def split: if_splits sum.splits)
  then show ?thesis by auto
next
  case False
  then have ok: "(length (h ! xvals) \<noteq> length (h ! yvals)) = False"
    "(length (h ! xvals) < 5) = False" "MathArrays_checkOrder (h ! xvals) = Inr ()"
    by (auto intro: sum.exhaust [of "MathArrays_checkOrder (h ! xvals)"])
  let ?n = "length (h ! xvals)"
  obtain h1 differences where a1: "new_array h (replicate (?n - 1) 0) = (h1, differences)"
    by (cases "new_array h (replicate (?n - 1) (0::number))")
  obtain h2 weights where a2: "new_array h1 (replicate (?n - 1) 0) = (h2, weights)"
    by (cases "new_array h1 (replicate (?n - 1) (0::number))")
  define h3 where "h3 = fold (\<lambda>i hp. assign hp differences i
                                     ((elem (hp ! yvals) (i + 1) - elem (hp ! yvals) i)
                                        / (elem (hp ! xvals) (i + 1) - elem (hp ! xvals) i)))
                               [0..<?n - 1] h2"
  define h4 where "h4 = fold (\<lambda>i hp. assign hp weights i
                                     \<bar>elem (hp ! differences) i - elem (hp ! differences) (i - 1)\<bar>)
                               [1..<?n - 1] h3"
  obtain h5 fd where a5: "new_array h4 (replicate ?n 0) = (h5, fd)"
    by (cases "new_array h4 (replicate ?n (0::number))")
  define h6 where "h6 = fold (\<lambda>i hp. assign hp fd i
                                     (akimaDerivative (hp ! xvals) (hp ! differences)
                                        (hp ! weights) i))
                               [2..<?n - 2] h5"
  define h7 where "h7 = assign h6 fd 0 (differentiateThreePoint (h6 ! xvals) (h6 ! yvals) 0 0 1 2)"
  define h8 where "h8 = assign h7 fd 1 (differentiateThreePoint (h7 ! xvals) (h7 ! yvals) 1 0 1 2)"
  define h9 where "h9 = assign h8 fd (?n - 2)
                               (differentiateThreePoint (h8 ! xvals) (h8 ! yvals)
                                  (?n - 2) (?n - 3) (?n - 2) (?n - 1))"
  define h10 where "h10 = assign h9 fd (?n - 1)
                                (differentiateThreePoint (h9 ! xvals) (h9 ! yvals)
                                   (?n - 1) (?n - 3) (?n - 2) (?n - 1))"
  from frame_new_array [OF a1] have f1: "frame h h1" and d: "differences = length h" by simp_all
  from frame_new_array [OF a2] have f12: "frame h1 h2" and w: "weights = length h1" by simp_all
  have f2: "frame h h2" using f1 f12 by (rule frame_trans)
  have w': "length h \<le> weights" using w frame_length [OF f1] by simp
  have f3: "frame h h3"
    unfolding h3_def using f2 d by (intro fold_invariant [where P = "frame h"] frame_assign) simp_all
  have f4: "frame h h4"
    unfolding h4_def using f3 w' by (intro fold_invariant [where P = "frame h"] frame_assign) simp_all
  from frame_new_array [OF a5] have f45: "frame h4 h5" and fd: "fd = length h4" by simp_all
  have f5: "frame h h5" using f4 f45 by (rule frame_trans)
  have fd': "length h \<le> fd" using fd frame_length [OF f4] by simp
  have f6: "frame h h6"
    unfolding h6_def using f5 fd' by (intro fold_invariant [where P = "frame h"] frame_assign) simp_all
  have f7: "frame h h7" unfolding h7_def using f6 fd' by (rule frame_assign)
  have f8: "frame h h8" unfolding h8_def using f7 fd' by (rule frame_assign)
  have f9: "frame h h9" unfolding h9_def using f8 fd' by (rule frame_assign)
  have f10: "frame h h10" unfolding h10_def using f9 fd' by (rule frame_assign)
  have res: "h_interpolateHermiteSorted h10 xvals yvals fd = (h', r)"
    using assms
    unfolding h_createAkimaSplineInterpolator_def Let_def ok if_False sum.case a1 a2 prod.case
      h3_def [symmetric] h4_def [symmetric] a5 h6_def [symmetric] h7_def [symmetric]
      h8_def [symmetric] h9_def [symmetric] h10_def [symmetric] .
  from hermite_frame [OF res f10] show ?thesis .
qed

lemma sweep_store_frame:
  "frame h0 hp \<Longrightarrow> length h0 \<le> mu \<Longrightarrow> length h0 \<le> z \<Longrightarrow>
   frame h0 (case sweep_step xs ys hs i (hp ! mu, hp ! z) of
               (mu1, z1) \<Rightarrow> store (store hp mu mu1) z z1)"
  by (cases "sweep_step xs ys hs i (hp ! mu, hp ! z)") (simp add: frame_store)

lemma back_store_frame:
  "frame h0 hp \<Longrightarrow> length h0 \<le> b \<Longrightarrow> length h0 \<le> c \<Longrightarrow> length h0 \<le> d \<Longrightarrow>
   frame h0 (case back_step ys hs mus zs j (hp ! b, hp ! c, hp ! d) of
               (b1, c1, d1) \<Rightarrow> store (store (store hp b b1) c c1) d d1)"
  by (cases "back_step ys hs mus zs j (hp ! b, hp ! c, hp ! d)") (simp add: frame_store)

lemma computeCubic_frame:
  assumes "h_computeCubicPolyCoefficients hp0 x y = (h', r)"
  shows "frame hp0 h'"
proof (cases "length (hp0 ! x) \<noteq> length (hp0 ! y) \<or> length (hp0 ! x) < 3
              \<or> (\<exists>e. MathArrays_checkOrder (hp0 ! x) = Inl e)")
  case True
  with assms have "h' = hp0"
    by (auto simp: h_computeCubicPolyCoefficients_def Let_def split: if_splits sum.splits)
  then show ?thesis by simp
next
  case False
  then have ok: "(length (hp0 ! x) \<noteq> length (hp0 ! y)) = False"
    "(length (hp0 ! x) < 3) = False" "MathArrays_checkOrder (hp0 ! x) = Inr ()"
    by (auto intro: sum.exhaust [of "MathArrays_checkOrder (hp0 ! x)"])
  let ?n = "length (hp0 ! x) - 1"
  obtain hp1 h where a1: "new_array hp0 (replicate ?n 0) = (hp1, h)"
    by (cases "new_array hp0 (replicate ?n (0::number))")
  define hp2 where "hp2 = fold (\<lambda>i hp. assign hp h i (elem (hp ! x) (i + 1) - elem (hp ! x) i))
                                [0..<?n] hp1"
  obtain hp3 mu where a3: "new_array hp2 (replicate ?n 0) = (hp3, mu)"
    by (cases "new_array hp2 (replicate ?n (0::number))")
  obtain hp4 z where a4: "new_array hp3 (replicate (?n + 1) 0) = (hp4, z)"
    by (cases "new_array hp3 (replicate (?n + 1) (0::number))")
  define hp5 where "hp5 = assign hp4 mu 0 0"
  define hp6 where "hp6 = assign hp5 z 0 0"
  define hp7 where "hp7 = fold (\<lambda>i hp.
                                      (case sweep_step (hp ! x) (hp ! y) (hp ! h) i
                                              (hp ! mu, hp ! z) of
                                         (mu1, z1) \<Rightarrow> store (store hp mu mu1) z z1))
                                [1..<?n] hp6"
  obtain hp8 b where a8: "new_array hp7 (replicate ?n 0) = (hp8, b)"
    by (cases "new_array hp7 (replicate ?n (0::number))")
  obtain hp9 c where a9: "new_array hp8 (replicate (?n + 1) 0) = (hp9, c)"
    by (cases "new_array hp8 (replicate (?n + 1) (0::number))")
  obtain hp10 d where a10: "new_array hp9 (replicate ?n 0) = (hp10, d)"
    by (cases "new_array hp9 (replicate ?n (0::number))")
  define hp11 where "hp11 = assign hp10 z ?n 0"
  define hp12 where "hp12 = assign hp11 c ?n 0"
  define hp13 where "hp13 = fold (\<lambda>j hp.
                                       (case back_step (hp ! y) (hp ! h) (hp ! mu) (hp ! z) j
                                               (hp ! b, hp ! c, hp ! d) of
                                          (b1, c1, d1) \<Rightarrow> store (store (store hp b b1) c c1) d d1))
                                 (rev [0..<?n]) hp12"
  from frame_new_array [OF a1] have f1: "frame hp0 hp1" and h: "length hp0 \<le> h" by simp_all
  have f2: "frame hp0 hp2"
    unfolding hp2_def using f1 h
    by (intro fold_invariant [where P = "frame hp0"] frame_assign) simp_all
  from frame_new_array [OF a3] have f23: "frame hp2 hp3" and mu: "mu = length hp2" by simp_all
  have f3: "frame hp0 hp3" using f2 f23 by (rule frame_trans)
  have mu': "length hp0 \<le> mu" using mu frame_length [OF f2] by simp
  from frame_new_array [OF a4] have f34: "frame hp3 hp4" and z: "z = length hp3" by simp_all
  have f4: "frame hp0 hp4" using f3 f34 by (rule frame_trans)
  have z': "length hp0 \<le> z" using z frame_length [OF f3] by simp
  have f5: "frame hp0 hp5" unfolding hp5_def using f4 mu' by (rule frame_assign)
  have f6: "frame hp0 hp6" unfolding hp6_def using f5 z' by (rule frame_assign)
  have f7: "frame hp0 hp7"
    unfolding hp7_def using f6 mu' z'
    by (intro fold_invariant [where P = "frame hp0"] sweep_store_frame) simp_all
  from frame_new_array [OF a8] have f78: "frame hp7 hp8" and b: "b = length hp7" by simp_all
  have f8: "frame hp0 hp8" using f7 f78 by (rule frame_trans)
  have b': "length hp0 \<le> b" using b frame_length [OF f7] by simp
  from frame_new_array [OF a9] have f89: "frame hp8 hp9" and c: "c = length hp8" by simp_all
  have f9: "frame hp0 hp9" using f8 f89 by (rule frame_trans)
  have c': "length hp0 \<le> c" using c frame_length [OF f8] by simp
  from frame_new_array [OF a10] have f910: "frame hp9 hp10" and d: "d = length hp9" by simp_all
  have f10: "frame hp0 hp10" using f9 f910 by (rule frame_trans)
  have d': "length hp0 \<le> d" using d frame_length [OF f9] by simp
  have f11: "frame hp0 hp11" unfolding hp11_def using f10 z' by (rule frame_assign)
  have f12: "frame hp0 hp12" unfolding hp12_def using f11 c' by (rule frame_assign)
  have f13: "frame hp0 hp13"
    unfolding hp13_def using f12 b' c' d'
    by (intro fold_invariant [where P = "frame hp0"] back_store_frame) simp_all
  have "(hp13, Inr (b, c, d)) = (h', r)"
    using assms
    unfolding h_computeCubicPolyCoefficients_def Let_def ok if_False sum.case a1 prod.case
      hp2_def [symmetric] a3 a4 hp5_def [symmetric] hp6_def [symmetric] hp7_def [symmetric]
      a8 a9 a10 hp11_def [symmetric] hp12_def [symmetric] hp13_def [symmetric] .
  with f13 show ?thesis by simp
qed

lemma cubic_frame:
  assumes "h_createCubicSplineInterpolator h x y = (h', r)"
  shows "frame h h' \<and> fresh_closure h h' r"
proof -
  obtain h1 r1 where cc: "h_computeCubicPolyCoefficients h x y = (h1, r1)"
    by (cases "h_computeCubicPolyCoefficients h x y")
  from computeCubic_frame [OF cc] have f1: "frame h h1" .
  show ?thesis
  proof (cases r1)
    case (Inl e)
    with assms cc have "h' = h1" "r = Inl e"
      by (simp_all add: h_createCubicSplineInterpolator_def)
    with f1 show ?thesis by simp
  next
    case (Inr bcd)
    obtain b c d where bcd: "bcd = (b, c, d)" by (cases bcd)
    obtain h2 cf where a2: "new_array h1 (replicate 4 0) = (h2, cf)"
      by (cases "new_array h1 (replicate 4 (0::number))")
    obtain h3 r3 where ps:
      "h_createPolynomials
         (\<lambda>hp i. [elem (hp ! y) i, elem (hp ! b) i, elem (hp ! c) i, elem (hp ! d) i])
         cf [0..<length (h1 ! x) - 1] h2 = (h3, r3)"
      by (cases "h_createPolynomials
         (\<lambda>hp i. [elem (hp ! y) i, elem (hp ! b) i, elem (hp ! c) i, elem (hp ! d) i])
         cf [0..<length (h1 ! x) - 1] h2")
    from frame_new_array [OF a2] have f12: "frame h1 h2" and cf: "cf = length h1" by simp_all
    have f2: "frame h h2" using f1 f12 by (rule frame_trans)
    have cf': "length h \<le> cf" using cf frame_length [OF f1] by simp
    have cc': "h_computeCubicPolyCoefficients h x y = (h1, Inr (b, c, d))"
      using cc Inr bcd by simp
    have res: "(case (h3, r3) of
                 (h3, Inl e) \<Rightarrow> (h3, Inl e)
               | (h3, Inr polynomials) \<Rightarrow> h_createPolynomialSplineFunction h3 x polynomials)
              = (h', r)"
      using assms
      unfolding h_createCubicSplineInterpolator_def cc' prod.case sum.case Let_def a2 ps .
    from polynomials_then_spline [OF ps res f2 cf'] show ?thesis .
  qed
qed

lemma polynomial_call_cong:
  "h1 ! polynomial_addr p = h2 ! polynomial_addr p \<Longrightarrow> polynomial_call h1 p = polynomial_call h2 p"
  by (cases p) simp

lemma call_cong:
  assumes "\<forall>a \<in> captured clo. h1 ! a = h2 ! a"
  shows "call h1 clo = call h2 clo"
proof (cases clo)
  case (SplineFunction knots2 polynomials)
  with assms have m: "map (polynomial_call h1) polynomials = map (polynomial_call h2) polynomials"
    by (intro map_cong refl polynomial_call_cong) simp
  from assms SplineFunction have k: "h1 ! knots2 = h2 ! knots2" by simp
  show ?thesis unfolding SplineFunction call.simps k m ..
qed (use assms in simp_all)

lemma constructor_frame:
  assumes "create \<in> set h_constructors" "create h x y = (h', r)"
  shows "frame h h' \<and> fresh_closure h h' r"
proof -
  from assms(1) consider "create = h_createNearestNeighborInterpolator"
    | "create = h_createLinearInterpolator" | "create = h_createCubicSplineInterpolator"
    | "create = h_createAkimaSplineInterpolator"
    by (auto simp: h_constructors_def)
  then show ?thesis
  proof cases
    case 1
    with assms(2) show ?thesis by (simp add: nearestNeighbor_frame)
  next
    case 2
    with assms(2) show ?thesis by (simp add: linear_frame)
  next
    case 3
    with assms(2) show ?thesis by (simp add: cubic_frame)
  next
    case 4
    with assms(2) show ?thesis by (simp add: akima_frame)
  qed
qed


section \<open>The store model computes what the functional model computes\<close>

text \<open>
  A constructor on the store, called on the addresses of two arrays, returns a closure
  that evaluates as the function that the functional constructor returns on the contents
  of the two arrays, or fails with the same error. The lemmas follow the constructors one
  by one: \<open>agree_except\<close> tracks the arrays that a loop writes, and each loop of the store
  model is shown to compute the fold of the functional model.
\<close>

lemma agree_except_refl [simp]: "agree_except A h h"
  by (simp add: agree_except_def)

lemma agree_except_trans:
  "agree_except A h1 h2 \<Longrightarrow> agree_except A h2 h3 \<Longrightarrow> agree_except A h1 h3"
  by (auto simp: agree_except_def)

lemma agree_except_mono: "agree_except A h h' \<Longrightarrow> A \<subseteq> B \<Longrightarrow> agree_except B h h'"
  by (auto simp: agree_except_def)

lemma agree_except_nth:
  "agree_except A h h' \<Longrightarrow> a < length h \<Longrightarrow> a \<notin> A \<Longrightarrow> h' ! a = h ! a"
  by (simp add: agree_except_def)

lemma agree_except_length: "agree_except A h h' \<Longrightarrow> length h \<le> length h'"
  by (simp add: agree_except_def)

lemma agree_except_store: "agree_except {a} h (store h a contents)"
  by (simp add: agree_except_def store_def)

lemma agree_except_assign: "agree_except {a} h (assign h a i v)"
  by (simp add: assign_def agree_except_store)

lemma agree_except_new_array:
  "new_array h contents = (h1, a) \<Longrightarrow> agree_except A h h1"
  by (auto simp: new_array_def agree_except_def nth_append)

lemma new_array_nth:
  "new_array h contents = (h1, a) \<Longrightarrow> a = length h \<and> h1 ! a = contents \<and> length h1 = Suc (length h)"
  by (auto simp: new_array_def)

lemma frame_agree_except: "frame h h' \<Longrightarrow> agree_except A h h'"
  by (simp add: agree_except_def frame_length frame_nth)

lemma polynomialFunction_link:
  assumes "h_createPolynomialFunction h c = (h1, r)" "c < length h"
  shows "agree_except A h h1 \<and> length h1 = Suc (length h)
       \<and> map_sum id (polynomial_call h1) r = createPolynomialFunction (h ! c)
       \<and> (\<forall>p. r = Inr p \<longrightarrow> polynomial_addr p = length h)"
proof -
  obtain h2 a where s: "slice h c = (h2, a)" by (cases "slice h c")
  then have na: "new_array h (h ! c) = (h2, a)" by (simp add: slice_def)
  from new_array_nth [OF na] have a: "a = length h" "h2 ! a = h ! c" "length h2 = Suc (length h)"
    by auto
  from assms(1) s have h1: "h1 = h2"
    by (simp add: h_createPolynomialFunction_def Let_def split: if_splits)
  from assms(1) s a have r: "r = (if length (h ! c) = 0 then Inl EmptyCoefficientsError
      else Inr (Polynomial a (trim_loop (h ! c) (length (h ! c)))))"
    by (simp add: h_createPolynomialFunction_def Let_def split: if_splits)
  have "map_sum id (polynomial_call h2) r = createPolynomialFunction (h ! c)"
    using a by (simp add: r createPolynomialFunction_def Let_def)
  moreover have "\<forall>p. r = Inr p \<longrightarrow> polynomial_addr p = length h"
    using a by (auto simp: r)
  ultimately show ?thesis
    using agree_except_new_array [OF na] a h1 by simp
qed

lemma createPolynomials_link:
  assumes "h_createPolynomials row cf is h = (h', r)" "cf < length h"
    and rows: "\<And>i hp. i \<in> set is \<Longrightarrow> agree_except {cf} h hp \<Longrightarrow> row hp i = rows i"
  shows "agree_except {cf} h h'
       \<and> (case r of
             Inl e \<Rightarrow> createPolynomials (map rows is) = Inl e
           | Inr ps \<Rightarrow> createPolynomials (map rows is) = Inr (map (polynomial_call h') ps)
                      \<and> (\<forall>p \<in> set ps. length h \<le> polynomial_addr p
                                        \<and> polynomial_addr p < length h'))"
  using assms
proof (induction "is" arbitrary: h h' r)
  case Nil
  then show ?case by auto
next
  case (Cons i "is")
  have ri: "row h i = rows i" by (rule Cons.prems(3)) simp_all
  let ?hs = "store h cf (rows i)"
  obtain h1 r1 where p: "h_createPolynomialFunction ?hs cf = (h1, r1)"
    by (cases "h_createPolynomialFunction ?hs cf")
  have cfs: "cf < length ?hs" using Cons.prems(2) by simp
  have hs_cf: "?hs ! cf = rows i" using Cons.prems(2) by (simp add: store_def)
  from polynomialFunction_link [OF p cfs, of "{cf}"] hs_cf have
    ag1: "agree_except {cf} ?hs h1" and l1: "length h1 = Suc (length h)"
    and ev1: "map_sum id (polynomial_call h1) r1 = createPolynomialFunction (rows i)"
    and a1: "\<forall>p. r1 = Inr p \<longrightarrow> polynomial_addr p = length h"
    by simp_all
  have ag01: "agree_except {cf} h h1"
    using agree_except_store ag1 by (rule agree_except_trans)
  show ?case
  proof (cases r1)
    case (Inl e)
    with Cons.prems(1) p ri have "h' = h1" "r = Inl e" by simp_all
    moreover from ev1 Inl have "createPolynomialFunction (rows i) = Inl e" by simp
    ultimately show ?thesis using ag01 by simp
  next
    case (Inr p1)
    with ev1 have pf: "createPolynomialFunction (rows i) = Inr (polynomial_call h1 p1)" by simp
    from a1 Inr have ad: "polynomial_addr p1 = length h" by simp
    obtain h2 r2 where rest: "h_createPolynomials row cf is h1 = (h2, r2)"
      by (cases "h_createPolynomials row cf is h1")
    have cf1: "cf < length h1" using Cons.prems(2) l1 by simp
    have rows1: "row hp j = rows j" if "j \<in> set is" "agree_except {cf} h1 hp" for j hp
    proof (rule Cons.prems(3))
      show "j \<in> set (i # is)" using that(1) by simp
      show "agree_except {cf} h hp" using ag01 that(2) by (rule agree_except_trans)
    qed
    from Cons.IH [OF rest cf1 rows1] have
      ag12: "agree_except {cf} h1 h2"
      and c2: "case r2 of
             Inl e \<Rightarrow> createPolynomials (map rows is) = Inl e
           | Inr ps \<Rightarrow> createPolynomials (map rows is) = Inr (map (polynomial_call h2) ps)
                      \<and> (\<forall>p \<in> set ps. length h1 \<le> polynomial_addr p
                                        \<and> polynomial_addr p < length h2)"
      by simp_all
    from Cons.prems(1) p Inr rest ri have h': "h' = h2"
      and r: "r = (case r2 of Inl e \<Rightarrow> Inl e | Inr ps \<Rightarrow> Inr (p1 # ps))"
      by (auto split: sum.splits)
    have ag: "agree_except {cf} h h'" unfolding h' using ag01 ag12 by (rule agree_except_trans)
    have "h2 ! length h = h1 ! length h"
      using ag12 l1 Cons.prems(2) by (intro agree_except_nth [of "{cf}"]) simp_all
    then have same: "polynomial_call h2 p1 = polynomial_call h1 p1"
      using ad by (intro polynomial_call_cong) simp
    show ?thesis
    proof (cases r2)
      case (Inl e)
      with c2 pf r ag show ?thesis by simp
    next
      case r2: (Inr ps)
      with c2 have cp: "createPolynomials (map rows is) = Inr (map (polynomial_call h2) ps)"
        and ads: "\<forall>p \<in> set ps. length h1 \<le> polynomial_addr p \<and> polynomial_addr p < length h2"
        by simp_all
      have "createPolynomials (map rows (i # is))
              = Inr (map (polynomial_call h2) (p1 # ps))"
        using pf cp same by simp
      moreover have "\<forall>p \<in> set (p1 # ps). length h \<le> polynomial_addr p
                                        \<and> polynomial_addr p < length h2"
        using ads ad l1 agree_except_length [OF ag12] by auto
      ultimately show ?thesis using r r2 ag h' by simp
    qed
  qed
qed

lemma splineFunction_link:
  assumes "h_createPolynomialSplineFunction h knots ps = (h', r)" "knots < length h"
    and "\<forall>p \<in> set ps. polynomial_addr p < length h"
  shows "map_sum id (call h') r
           = createPolynomialSplineFunction (h ! knots) (map (polynomial_call h) ps)"
proof -
  obtain h1 a where s: "slice h knots = (h1, a)" by (cases "slice h knots")
  then have na: "new_array h (h ! knots) = (h1, a)" by (simp add: slice_def)
  from new_array_nth [OF na] have a: "a = length h" "h1 ! a = h ! knots" by auto
  from assms(1) s have h': "h' = h1"
    by (simp add: h_createPolynomialSplineFunction_def Let_def split: if_splits sum.splits)
  have pc: "map (polynomial_call h1) ps = map (polynomial_call h) ps"
  proof (intro map_cong refl polynomial_call_cong)
    fix p assume "p \<in> set ps"
    with assms(3) have "polynomial_addr p < length h" by simp
    with agree_except_new_array [OF na, of "{}"]
    show "h1 ! polynomial_addr p = h ! polynomial_addr p"
      by (intro agree_except_nth [of "{}"]) simp_all
  qed
  from assms(1) s a show ?thesis
    unfolding h'
    by (auto simp: h_createPolynomialSplineFunction_def createPolynomialSplineFunction_def
        Let_def pc split: if_splits sum.splits)
qed

lemma polynomials_then_spline_link:
  assumes ps: "h_createPolynomials row cf is h = (h1, r1)"
    and res: "(case (h1, r1) of
                 (h1, Inl e) \<Rightarrow> (h1, Inl e)
               | (h1, Inr polynomials) \<Rightarrow> h_createPolynomialSplineFunction h1 knots polynomials)
              = (h', r)"
    and cf: "cf < length h" and knots: "knots < length h" "knots \<noteq> cf"
    and rows: "\<And>i hp. i \<in> set is \<Longrightarrow> agree_except {cf} h hp \<Longrightarrow> row hp i = rows i"
  shows "map_sum id (call h') r =
           (case createPolynomials (map rows is) of
              Inl e \<Rightarrow> Inl e
            | Inr polynomials \<Rightarrow> createPolynomialSplineFunction (h ! knots) polynomials)"
proof -
  from createPolynomials_link [OF ps cf rows] have
    ag: "agree_except {cf} h h1"
    and c: "case r1 of
             Inl e \<Rightarrow> createPolynomials (map rows is) = Inl e
           | Inr ps \<Rightarrow> createPolynomials (map rows is) = Inr (map (polynomial_call h1) ps)
                      \<and> (\<forall>p \<in> set ps. length h \<le> polynomial_addr p
                                        \<and> polynomial_addr p < length h1)"
    by simp_all
  show ?thesis
  proof (cases r1)
    case (Inl e)
    with res c show ?thesis by auto
  next
    case (Inr polys)
    with c have cp: "createPolynomials (map rows is) = Inr (map (polynomial_call h1) polys)"
      and ads: "\<forall>p \<in> set polys. polynomial_addr p < length h1"
      by simp_all
    from res Inr have sp: "h_createPolynomialSplineFunction h1 knots polys = (h', r)" by simp
    have k1: "knots < length h1" using knots(1) agree_except_length [OF ag] by simp
    have hk: "h1 ! knots = h ! knots"
      using ag knots by (intro agree_except_nth [of "{cf}"]) simp_all
    from splineFunction_link [OF sp k1 ads] show ?thesis
      by (simp add: cp hk)
  qed
qed

lemma fold_assign_link:
  assumes "a < length h"
    and "\<And>i hp. i \<in> set js \<Longrightarrow> agree_except {a} h hp \<Longrightarrow> f hp i = g i"
  shows "agree_except {a} h (fold (\<lambda>i hp. assign hp a i (f hp i)) js h)
       \<and> length (fold (\<lambda>i hp. assign hp a i (f hp i)) js h) = length h
       \<and> fold (\<lambda>i hp. assign hp a i (f hp i)) js h ! a
           = fold (\<lambda>i arr. arr[i := g i]) js (h ! a)"
  using assms
proof (induction js arbitrary: h)
  case Nil
  then show ?case by simp
next
  case (Cons i js)
  have fi: "f h i = g i" by (rule Cons.prems(2)) simp_all
  let ?h1 = "assign h a i (g i)"
  have ag: "agree_except {a} h ?h1" by (rule agree_except_assign)
  have a1: "a < length ?h1" using Cons.prems(1) by simp
  have h1a: "?h1 ! a = (h ! a)[i := g i]"
    using Cons.prems(1) by (simp add: assign_def store_def)
  have cond: "f hp j = g j" if "j \<in> set js" "agree_except {a} ?h1 hp" for j hp
  proof (rule Cons.prems(2))
    show "j \<in> set (i # js)" using that(1) by simp
    show "agree_except {a} h hp" using ag that(2) by (rule agree_except_trans)
  qed
  from Cons.IH [OF a1 cond] have
    "agree_except {a} ?h1 (fold (\<lambda>i hp. assign hp a i (f hp i)) js ?h1)"
    "length (fold (\<lambda>i hp. assign hp a i (f hp i)) js ?h1) = length ?h1"
    "fold (\<lambda>i hp. assign hp a i (f hp i)) js ?h1 ! a
       = fold (\<lambda>i arr. arr[i := g i]) js (?h1 ! a)"
    by simp_all
  with ag h1a fi show ?case
    by (auto intro: agree_except_trans)
qed


lemma fold_update_nth:
  "k < length arr \<Longrightarrow>
   fold (\<lambda>i arr. arr[i := g i]) is arr ! k = (if k \<in> set is then g k else arr ! k)"
  by (induction "is" arbitrary: arr) (auto simp: nth_list_update)

lemma fold_update_map:
  "fold (\<lambda>i arr. arr[i := g i]) [0..<n] (replicate n v) = map g [0..<n]"
  by (rule nth_equalityI) (simp_all add: length_fold_update fold_update_nth)

lemma nearestNeighbor_link:
  assumes "h_createNearestNeighborInterpolator h xvals yvals = (h', r)"
    "xvals < length h" "yvals < length h"
  shows "map_sum id (call h') r = createNearestNeighborInterpolator (h ! xvals) (h ! yvals)"
proof -
  obtain h1 xvals2 where s1: "slice h xvals = (h1, xvals2)" by (cases "slice h xvals")
  obtain h2 yvals2 where s2: "slice h1 yvals = (h2, yvals2)" by (cases "slice h1 yvals")
  from s1 s2 assms(2,3) have
    c: "h2 ! xvals2 = h ! xvals" "h2 ! yvals2 = h ! yvals"
    by (auto simp: slice_def new_array_def nth_append)
  from assms(1) s1 s2 c show ?thesis
    by (auto simp: h_createNearestNeighborInterpolator_def createNearestNeighborInterpolator_def
        Let_def split: if_splits sum.splits)
qed

lemma linear_link:
  assumes "h_createLinearInterpolator h x y = (h', r)" "x < length h" "y < length h"
  shows "map_sum id (call h') r = createLinearInterpolator (h ! x) (h ! y)"
proof (cases "length (h ! x) \<noteq> length (h ! y) \<or> length (h ! x) < 2
              \<or> (\<exists>e. MathArrays_checkOrder (h ! x) = Inl e)")
  case True
  with assms(1) show ?thesis
    by (auto simp: h_createLinearInterpolator_def createLinearInterpolator_def Let_def
        split: if_splits sum.splits)
next
  case False
  then have ok: "(length (h ! x) \<noteq> length (h ! y)) = False" "(length (h ! x) < 2) = False"
    "MathArrays_checkOrder (h ! x) = Inr ()"
    by (auto intro: sum.exhaust [of "MathArrays_checkOrder (h ! x)"])
  let ?n = "length (h ! x) - 1"
  let ?g = "\<lambda>i. (elem (h ! y) (i + 1) - elem (h ! y) i) / (elem (h ! x) (i + 1) - elem (h ! x) i)"
  obtain h1 m where a1: "new_array h (replicate ?n 0) = (h1, m)"
    by (cases "new_array h (replicate ?n (0::number))")
  define h2 where "h2 = fold (\<lambda>i hp. assign hp m i
                                     ((elem (hp ! y) (i + 1) - elem (hp ! y) i)
                                        / (elem (hp ! x) (i + 1) - elem (hp ! x) i)))
                               [0..<?n] h1"
  obtain h3 cf where a3: "new_array h2 (replicate 2 0) = (h3, cf)"
    by (cases "new_array h2 (replicate 2 (0::number))")
  obtain h4 r4 where ps:
    "h_createPolynomials (\<lambda>hp i. [elem (hp ! y) i, elem (hp ! m) i]) cf [0..<?n] h3 = (h4, r4)"
    by (cases "h_createPolynomials (\<lambda>hp i. [elem (hp ! y) i, elem (hp ! m) i]) cf [0..<?n] h3")
  have res: "(case (h4, r4) of
                 (h4, Inl e) \<Rightarrow> (h4, Inl e)
               | (h4, Inr polynomials) \<Rightarrow> h_createPolynomialSplineFunction h4 x polynomials)
              = (h', r)"
    using assms(1)
    unfolding h_createLinearInterpolator_def Let_def ok if_False sum.case a1 prod.case
      h2_def [symmetric] a3 ps .
  from new_array_nth [OF a1] have m: "m = length h" "h1 ! m = replicate ?n 0"
    "length h1 = Suc (length h)" by auto
  have ag1: "agree_except {} h h1" using a1 by (rule agree_except_new_array)
  have h1xy: "h1 ! x = h ! x" "h1 ! y = h ! y"
    using ag1 assms(2,3) by (simp_all add: agree_except_nth)
  have reads: "(elem (hp ! y) (i + 1) - elem (hp ! y) i) / (elem (hp ! x) (i + 1) - elem (hp ! x) i)
                 = ?g i" if "agree_except {m} h1 hp" for i hp
  proof -
    from that assms(2,3) m have "hp ! x = h1 ! x" "hp ! y = h1 ! y"
      by (simp_all add: agree_except_nth)
    with h1xy show ?thesis by simp
  qed
  have m1: "m < length h1" using m by simp
  from fold_assign_link [OF m1, where g = ?g and f = "\<lambda>hp i.
      (elem (hp ! y) (i + 1) - elem (hp ! y) i) / (elem (hp ! x) (i + 1) - elem (hp ! x) i)"
      and js = "[0..<?n]"] reads
  have ag2: "agree_except {m} h1 h2" and l2: "length h2 = length h1"
    and h2m: "h2 ! m = fold (\<lambda>i arr. arr[i := ?g i]) [0..<?n] (h1 ! m)"
    unfolding h2_def by blast+
  have M: "h2 ! m = map ?g [0..<?n]"
    unfolding h2m m(2) by (rule fold_update_map)
  have h2xy: "h2 ! x = h ! x" "h2 ! y = h ! y"
    using ag2 assms(2,3) m h1xy by (simp_all add: agree_except_nth)
  from new_array_nth [OF a3] have cf: "cf = length h2" "length h3 = Suc (length h2)" by auto
  have ag3: "agree_except {} h2 h3" using a3 by (rule agree_except_new_array)
  have h3v: "h3 ! x = h ! x" "h3 ! y = h ! y" "h3 ! m = map ?g [0..<?n]"
    using ag3 assms(2,3) m l2 h2xy M by (simp_all add: agree_except_nth)
  have rows: "[elem (hp ! y) i, elem (hp ! m) i] = [elem (h ! y) i, elem (map ?g [0..<?n]) i]"
    if "agree_except {cf} h3 hp" for i hp
  proof -
    from that assms(2,3) m l2 cf have "hp ! y = h3 ! y" "hp ! m = h3 ! m"
      by (simp_all add: agree_except_nth)
    with h3v show ?thesis by simp
  qed
  have c3: "cf < length h3" "x < length h3" "x \<noteq> cf"
    using cf assms(2) m l2 by simp_all
  from polynomials_then_spline_link [OF ps res c3, where
      rows = "\<lambda>i. [elem (h ! y) i, elem (map ?g [0..<?n]) i]"] rows
  have "map_sum id (call h') r =
           (case createPolynomials (map (\<lambda>i. [elem (h ! y) i, elem (map ?g [0..<?n]) i]) [0..<?n]) of
              Inl e \<Rightarrow> Inl e
            | Inr polynomials \<Rightarrow> createPolynomialSplineFunction (h3 ! x) polynomials)"
    by blast
  also have "\<dots> = createLinearInterpolator (h ! x) (h ! y)"
    unfolding createLinearInterpolator_def Let_def ok if_False sum.case h3v ..
  finally show ?thesis .
qed

lemma hermite_link:
  assumes "h_interpolateHermiteSorted h xvals yvals fd = (h', r)"
    "xvals < length h" "yvals < length h" "fd < length h"
  shows "map_sum id (call h') r = interpolateHermiteSorted (h ! xvals) (h ! yvals) (h ! fd)"
proof (cases "length (h ! xvals) \<noteq> length (h ! yvals) \<or> length (h ! xvals) \<noteq> length (h ! fd)
              \<or> length (h ! xvals) < 2")
  case True
  with assms(1) show ?thesis
    by (auto simp: h_interpolateHermiteSorted_def interpolateHermiteSorted_def Let_def
        split: if_splits)
next
  case False
  then have ok: "(length (h ! xvals) \<noteq> length (h ! yvals)
                   \<or> length (h ! xvals) \<noteq> length (h ! fd)) = False"
    "(length (h ! xvals) < 2) = False"
    by auto
  let ?n = "length (h ! xvals)"
  obtain h1 cf where a1: "new_array h (replicate 4 0) = (h1, cf)"
    by (cases "new_array h (replicate 4 (0::number))")
  obtain h2 r2 where ps:
    "h_createPolynomials (\<lambda>hp. hermiteCoefficients (hp ! xvals) (hp ! yvals) (hp ! fd)) cf
       [0..<?n - 1] h1 = (h2, r2)"
    by (cases "h_createPolynomials (\<lambda>hp. hermiteCoefficients (hp ! xvals) (hp ! yvals) (hp ! fd))
       cf [0..<?n - 1] h1")
  have res: "(case (h2, r2) of
                 (h2, Inl e) \<Rightarrow> (h2, Inl e)
               | (h2, Inr polynomials) \<Rightarrow> h_createPolynomialSplineFunction h2 xvals polynomials)
              = (h', r)"
    using assms(1)
    unfolding h_interpolateHermiteSorted_def Let_def ok if_False a1 prod.case ps .
  from new_array_nth [OF a1] have cf: "cf = length h" "length h1 = Suc (length h)" by auto
  have ag1: "agree_except {} h h1" using a1 by (rule agree_except_new_array)
  have h1v: "h1 ! xvals = h ! xvals" "h1 ! yvals = h ! yvals" "h1 ! fd = h ! fd"
    using ag1 assms(2-4) by (simp_all add: agree_except_nth)
  have rows: "hermiteCoefficients (hp ! xvals) (hp ! yvals) (hp ! fd) i
                = hermiteCoefficients (h ! xvals) (h ! yvals) (h ! fd) i"
    if "agree_except {cf} h1 hp" for i hp
  proof -
    from that assms(2-4) cf have "hp ! xvals = h1 ! xvals" "hp ! yvals = h1 ! yvals"
      "hp ! fd = h1 ! fd"
      by (simp_all add: agree_except_nth)
    with h1v show ?thesis by simp
  qed
  have c1: "cf < length h1" "xvals < length h1" "xvals \<noteq> cf"
    using cf assms(2) by simp_all
  from polynomials_then_spline_link [OF ps res c1, where
      rows = "hermiteCoefficients (h ! xvals) (h ! yvals) (h ! fd)"] rows
  have "map_sum id (call h') r =
           (case createPolynomials
                   (map (hermiteCoefficients (h ! xvals) (h ! yvals) (h ! fd)) [0..<?n - 1]) of
              Inl e \<Rightarrow> Inl e
            | Inr polynomials \<Rightarrow> createPolynomialSplineFunction (h1 ! xvals) polynomials)"
    by blast
  also have "\<dots> = interpolateHermiteSorted (h ! xvals) (h ! yvals) (h ! fd)"
    unfolding interpolateHermiteSorted_def Let_def ok if_False h1v ..
  finally show ?thesis .
qed

lemma assign_nth:
  "a < length h \<Longrightarrow> assign h a i v ! a = (h ! a)[i := v]"
  by (simp add: assign_def store_def)

lemma assign_other:
  "a' \<noteq> a \<Longrightarrow> assign h a i v ! a' = h ! a'"
  by (simp add: assign_def store_def)

lemma akima_link:
  assumes "h_createAkimaSplineInterpolator h xvals yvals = (h', r)"
    "xvals < length h" "yvals < length h"
  shows "map_sum id (call h') r = createAkimaSplineInterpolator (h ! xvals) (h ! yvals)"
proof (cases "length (h ! xvals) \<noteq> length (h ! yvals) \<or> length (h ! xvals) < 5
              \<or> (\<exists>e. MathArrays_checkOrder (h ! xvals) = Inl e)")
  case True
  with assms(1) show ?thesis
    by (auto simp: h_createAkimaSplineInterpolator_def createAkimaSplineInterpolator_def Let_def
        split: if_splits sum.splits)
next
  case False
  then have ok: "(length (h ! xvals) \<noteq> length (h ! yvals)) = False"
    "(length (h ! xvals) < 5) = False" "MathArrays_checkOrder (h ! xvals) = Inr ()"
    by (auto intro: sum.exhaust [of "MathArrays_checkOrder (h ! xvals)"])
  let ?n = "length (h ! xvals)"
  let ?X = "h ! xvals" and ?Y = "h ! yvals"
  obtain h1 differences where a1: "new_array h (replicate (?n - 1) 0) = (h1, differences)"
    by (cases "new_array h (replicate (?n - 1) (0::number))")
  obtain h2 weights where a2: "new_array h1 (replicate (?n - 1) 0) = (h2, weights)"
    by (cases "new_array h1 (replicate (?n - 1) (0::number))")
  define h3 where "h3 = fold (\<lambda>i hp. assign hp differences i
                                     ((elem (hp ! yvals) (i + 1) - elem (hp ! yvals) i)
                                        / (elem (hp ! xvals) (i + 1) - elem (hp ! xvals) i)))
                               [0..<?n - 1] h2"
  define h4 where "h4 = fold (\<lambda>i hp. assign hp weights i
                                     \<bar>elem (hp ! differences) i - elem (hp ! differences) (i - 1)\<bar>)
                               [1..<?n - 1] h3"
  obtain h5 fd where a5: "new_array h4 (replicate ?n 0) = (h5, fd)"
    by (cases "new_array h4 (replicate ?n (0::number))")
  define h6 where "h6 = fold (\<lambda>i hp. assign hp fd i
                                     (akimaDerivative (hp ! xvals) (hp ! differences)
                                        (hp ! weights) i))
                               [2..<?n - 2] h5"
  define h7 where "h7 = assign h6 fd 0 (differentiateThreePoint (h6 ! xvals) (h6 ! yvals) 0 0 1 2)"
  define h8 where "h8 = assign h7 fd 1 (differentiateThreePoint (h7 ! xvals) (h7 ! yvals) 1 0 1 2)"
  define h9 where "h9 = assign h8 fd (?n - 2)
                               (differentiateThreePoint (h8 ! xvals) (h8 ! yvals)
                                  (?n - 2) (?n - 3) (?n - 2) (?n - 1))"
  define h10 where "h10 = assign h9 fd (?n - 1)
                                (differentiateThreePoint (h9 ! xvals) (h9 ! yvals)
                                   (?n - 1) (?n - 3) (?n - 2) (?n - 1))"
  have res: "h_interpolateHermiteSorted h10 xvals yvals fd = (h', r)"
    using assms(1)
    unfolding h_createAkimaSplineInterpolator_def Let_def ok if_False sum.case a1 a2 prod.case
      h3_def [symmetric] h4_def [symmetric] a5 h6_def [symmetric] h7_def [symmetric]
      h8_def [symmetric] h9_def [symmetric] h10_def [symmetric] .
  \<comment> \<open>the two arrays of slopes and weights\<close>
  from new_array_nth [OF a1] have d: "differences = length h"
    "h1 ! differences = replicate (?n - 1) 0" "length h1 = Suc (length h)" by auto
  from new_array_nth [OF a2] have w: "weights = Suc (length h)"
    "h2 ! weights = replicate (?n - 1) 0" "length h2 = Suc (Suc (length h))"
    using d(3) by auto
  have ag1: "agree_except {} h h1" using a1 by (rule agree_except_new_array)
  have ag2: "agree_except {} h1 h2" using a2 by (rule agree_except_new_array)
  have h2v: "h2 ! xvals = ?X" "h2 ! yvals = ?Y" "h2 ! differences = replicate (?n - 1) 0"
    using ag1 ag2 assms(2,3) d by (simp_all add: agree_except_nth)
  let ?gd = "\<lambda>i. (elem ?Y (i + 1) - elem ?Y i) / (elem ?X (i + 1) - elem ?X i)"
  have rd: "(elem (hp ! yvals) (i + 1) - elem (hp ! yvals) i)
              / (elem (hp ! xvals) (i + 1) - elem (hp ! xvals) i) = ?gd i"
    if "agree_except {differences} h2 hp" for i hp
  proof -
    from that assms(2,3) d w have "hp ! xvals = h2 ! xvals" "hp ! yvals = h2 ! yvals"
      by (simp_all add: agree_except_nth)
    with h2v show ?thesis by simp
  qed
  have d2: "differences < length h2" using d w by simp
  from fold_assign_link [OF d2, where g = ?gd and f = "\<lambda>hp i.
      (elem (hp ! yvals) (i + 1) - elem (hp ! yvals) i)
        / (elem (hp ! xvals) (i + 1) - elem (hp ! xvals) i)" and js = "[0..<?n - 1]"] rd
  have ag3: "agree_except {differences} h2 h3" and l3: "length h3 = length h2"
    and h3d: "h3 ! differences = fold (\<lambda>i arr. arr[i := ?gd i]) [0..<?n - 1] (h2 ! differences)"
    unfolding h3_def by blast+
  have D: "h3 ! differences = akimaDifferences ?X ?Y"
    unfolding h3d h2v(3) akimaDifferences_def by (rule fold_update_map)
  have h3v: "h3 ! xvals = ?X" "h3 ! yvals = ?Y" "h3 ! weights = replicate (?n - 1) 0"
    using ag3 assms(2,3) d w h2v by (simp_all add: agree_except_nth)
  let ?D = "akimaDifferences ?X ?Y"
  let ?gw = "\<lambda>i. \<bar>elem ?D i - elem ?D (i - 1)\<bar>"
  have rw: "\<bar>elem (hp ! differences) i - elem (hp ! differences) (i - 1)\<bar> = ?gw i"
    if "agree_except {weights} h3 hp" for i hp
  proof -
    from that d w l3 have "hp ! differences = h3 ! differences"
      by (simp add: agree_except_nth)
    with D show ?thesis by simp
  qed
  have w3: "weights < length h3" using w l3 by simp
  from fold_assign_link [OF w3, where g = ?gw and f = "\<lambda>hp i.
      \<bar>elem (hp ! differences) i - elem (hp ! differences) (i - 1)\<bar>" and js = "[1..<?n - 1]"] rw
  have ag4: "agree_except {weights} h3 h4" and l4: "length h4 = length h3"
    and h4w: "h4 ! weights = fold (\<lambda>i arr. arr[i := ?gw i]) [1..<?n - 1] (h3 ! weights)"
    unfolding h4_def by blast+
  have W: "h4 ! weights = akimaWeights ?D ?n"
    unfolding h4w h3v(3) akimaWeights_def ..
  have h4v: "h4 ! xvals = ?X" "h4 ! yvals = ?Y" "h4 ! differences = ?D"
    using ag4 assms(2,3) d w l3 h3v D by (simp_all add: agree_except_nth)
  \<comment> \<open>the array of derivatives\<close>
  let ?W = "akimaWeights ?D ?n"
  from new_array_nth [OF a5] have fd: "fd = length h4" "h5 ! fd = replicate ?n 0"
    "length h5 = Suc (length h4)" by auto
  have ag5: "agree_except {} h4 h5" using a5 by (rule agree_except_new_array)
  have l4': "length h4 = Suc (Suc (length h))" using l4 l3 w by simp
  have h5v: "h5 ! xvals = ?X" "h5 ! yvals = ?Y" "h5 ! differences = ?D" "h5 ! weights = ?W"
    using ag5 assms(2,3) d w l4' h4v W by (simp_all add: agree_except_nth)
  let ?gf = "\<lambda>i. akimaDerivative ?X ?D ?W i"
  have rf: "akimaDerivative (hp ! xvals) (hp ! differences) (hp ! weights) i = ?gf i"
    if "agree_except {fd} h5 hp" for i hp
  proof -
    from that assms(2,3) d w fd l4' have "hp ! xvals = h5 ! xvals"
      "hp ! differences = h5 ! differences" "hp ! weights = h5 ! weights"
      by (simp_all add: agree_except_nth)
    with h5v show ?thesis by simp
  qed
  have fd5: "fd < length h5" using fd by simp
  from fold_assign_link [OF fd5, where g = ?gf and f = "\<lambda>hp i.
      akimaDerivative (hp ! xvals) (hp ! differences) (hp ! weights) i"
      and js = "[2..<?n - 2]"] rf
  have ag6: "agree_except {fd} h5 h6" and l6: "length h6 = length h5"
    and h6f: "h6 ! fd = fold (\<lambda>i arr. arr[i := ?gf i]) [2..<?n - 2] (h5 ! fd)"
    unfolding h6_def by blast+
  have xy: "xvals \<noteq> fd" "yvals \<noteq> fd" "xvals < length h5" "yvals < length h5"
    using assms(2,3) fd l4' by simp_all
  have h6v: "h6 ! xvals = ?X" "h6 ! yvals = ?Y"
    using ag6 xy h5v by (simp_all add: agree_except_nth)
  have fd6: "fd < length h6" using fd5 l6 by simp
  have h7v: "h7 ! xvals = ?X" "h7 ! yvals = ?Y" "length h7 = length h6"
    "h7 ! fd = (h6 ! fd)[0 := differentiateThreePoint ?X ?Y 0 0 1 2]"
    unfolding h7_def using xy l6 h6v fd6
    by (simp_all add: assign_other assign_nth length_assign)
  have fd7: "fd < length h7" using fd6 h7v(3) by simp
  have h8v: "h8 ! xvals = ?X" "h8 ! yvals = ?Y" "length h8 = length h6"
    "h8 ! fd = (h7 ! fd)[1 := differentiateThreePoint ?X ?Y 1 0 1 2]"
    unfolding h8_def using xy l6 h7v fd7
    by (simp_all add: assign_other assign_nth length_assign)
  have fd8: "fd < length h8" using fd6 h8v(3) by simp
  have h9v: "h9 ! xvals = ?X" "h9 ! yvals = ?Y" "length h9 = length h6"
    "h9 ! fd = (h8 ! fd)[?n - 2 := differentiateThreePoint ?X ?Y (?n - 2) (?n - 3) (?n - 2) (?n - 1)]"
    unfolding h9_def using xy l6 h8v fd8
    by (simp_all add: assign_other assign_nth length_assign)
  have fd9: "fd < length h9" using fd6 h9v(3) by simp
  have h10v: "h10 ! xvals = ?X" "h10 ! yvals = ?Y" "length h10 = length h6"
    "h10 ! fd = (h9 ! fd)[?n - 1 := differentiateThreePoint ?X ?Y (?n - 1) (?n - 3) (?n - 2) (?n - 1)]"
    unfolding h10_def using xy l6 h9v fd9
    by (simp_all add: assign_other assign_nth length_assign)
  have F: "h10 ! fd = akimaFirstDerivatives ?X ?Y"
    unfolding akimaFirstDerivatives_def Let_def h10v(4) h9v(4) h8v(4) h7v(4) h6f fd(2) ..
  have c10: "xvals < length h10" "yvals < length h10" "fd < length h10"
    using xy l6 h10v(3) fd6 by simp_all
  from hermite_link [OF res c10] have
    "map_sum id (call h') r = interpolateHermiteSorted ?X ?Y (akimaFirstDerivatives ?X ?Y)"
    unfolding h10v(1,2) F .
  also have "\<dots> = createAkimaSplineInterpolator ?X ?Y"
    unfolding createAkimaSplineInterpolator_def Let_def ok if_False sum.case ..
  finally show ?thesis .
qed

lemma store_nth: "a < length h \<Longrightarrow> store h a v ! a = v"
  by (simp add: store_def)

lemma store_other: "a' \<noteq> a \<Longrightarrow> store h a v ! a' = h ! a'"
  by (simp add: store_def)

lemma fold_sweep_link:
  assumes "mu < length hp" "z < length hp" "mu \<noteq> z"
    "x \<noteq> mu" "x \<noteq> z" "y \<noteq> mu" "y \<noteq> z" "hh \<noteq> mu" "hh \<noteq> z"
  defines "step \<equiv> \<lambda>i hp. case sweep_step (hp ! x) (hp ! y) (hp ! hh) i (hp ! mu, hp ! z) of
                            (mu1, z1) \<Rightarrow> store (store hp mu mu1) z z1"
  shows "length (fold step js hp) = length hp
       \<and> (\<forall>a. a \<noteq> mu \<and> a \<noteq> z \<longrightarrow> fold step js hp ! a = hp ! a)
       \<and> (fold step js hp ! mu, fold step js hp ! z)
           = fold (sweep_step (hp ! x) (hp ! y) (hp ! hh)) js (hp ! mu, hp ! z)"
  using assms(1,2)
proof (induction js arbitrary: hp)
  case Nil
  show ?case by simp
next
  case (Cons i js)
  obtain mu1 z1 where s: "sweep_step (hp ! x) (hp ! y) (hp ! hh) i (hp ! mu, hp ! z) = (mu1, z1)"
    by (cases "sweep_step (hp ! x) (hp ! y) (hp ! hh) i (hp ! mu, hp ! z)")
  have st: "step i hp = store (store hp mu mu1) z z1"
    by (simp add: step_def s)
  have l: "length (step i hp) = length hp" by (simp add: st length_store)
  have o: "step i hp ! a = hp ! a" if "a \<noteq> mu" "a \<noteq> z" for a
    using that by (simp add: st store_other)
  have m: "step i hp ! mu = mu1" "step i hp ! z = z1"
    using Cons.prems assms(3) by (simp_all add: st store_other store_nth length_store)
  have xs: "step i hp ! x = hp ! x" "step i hp ! y = hp ! y" "step i hp ! hh = hp ! hh"
    using assms(4-9) by (simp_all add: o)
  from Cons.prems l have p: "mu < length (step i hp)" "z < length (step i hp)" by simp_all
  from Cons.IH [OF p] show ?case
    by (simp add: l xs m s o)
qed

lemma fold_back_link:
  assumes "b < length hp" "c < length hp" "d < length hp" "b \<noteq> c" "b \<noteq> d" "c \<noteq> d"
    "y \<noteq> b" "y \<noteq> c" "y \<noteq> d" "hh \<noteq> b" "hh \<noteq> c" "hh \<noteq> d"
    "mu \<noteq> b" "mu \<noteq> c" "mu \<noteq> d" "z \<noteq> b" "z \<noteq> c" "z \<noteq> d"
  defines "step \<equiv> \<lambda>j hp. case back_step (hp ! y) (hp ! hh) (hp ! mu) (hp ! z) j
                                   (hp ! b, hp ! c, hp ! d) of
                            (b1, c1, d1) \<Rightarrow> store (store (store hp b b1) c c1) d d1"
  shows "length (fold step js hp) = length hp
       \<and> (\<forall>a. a \<noteq> b \<and> a \<noteq> c \<and> a \<noteq> d \<longrightarrow> fold step js hp ! a = hp ! a)
       \<and> (fold step js hp ! b, fold step js hp ! c, fold step js hp ! d)
           = fold (back_step (hp ! y) (hp ! hh) (hp ! mu) (hp ! z)) js (hp ! b, hp ! c, hp ! d)"
  using assms(1-3)
proof (induction js arbitrary: hp)
  case Nil
  show ?case by simp
next
  case (Cons j js)
  obtain b1 c1 d1 where s:
    "back_step (hp ! y) (hp ! hh) (hp ! mu) (hp ! z) j (hp ! b, hp ! c, hp ! d) = (b1, c1, d1)"
    by (cases "back_step (hp ! y) (hp ! hh) (hp ! mu) (hp ! z) j (hp ! b, hp ! c, hp ! d)")
  have st: "step j hp = store (store (store hp b b1) c c1) d d1"
    by (simp add: step_def s)
  have l: "length (step j hp) = length hp" by (simp add: st length_store)
  have o: "step j hp ! a = hp ! a" if "a \<noteq> b" "a \<noteq> c" "a \<noteq> d" for a
    using that by (simp add: st store_other)
  have m: "step j hp ! b = b1" "step j hp ! c = c1" "step j hp ! d = d1"
    using Cons.prems assms(4-6) by (simp_all add: st store_other store_nth length_store)
  have xs: "step j hp ! y = hp ! y" "step j hp ! hh = hp ! hh" "step j hp ! mu = hp ! mu"
    "step j hp ! z = hp ! z"
    using assms(7-18) by (simp_all add: o)
  from Cons.prems l have p: "b < length (step j hp)" "c < length (step j hp)"
    "d < length (step j hp)" by simp_all
  from Cons.IH [OF p] show ?case
    by (simp add: l xs m s o)
qed

lemma new_array_other:
  "new_array h contents = (h1, a) \<Longrightarrow> a' < length h \<Longrightarrow> h1 ! a' = h ! a'"
  by (auto simp: new_array_def nth_append)

lemma computeCubic_link:
  assumes cc: "h_computeCubicPolyCoefficients hp0 x y = (h', r)"
    and x: "x < length hp0" and y: "y < length hp0"
  shows "map_sum id (\<lambda>(b, c, d). (h' ! b, h' ! c, h' ! d)) r
           = computeCubicPolyCoefficients (hp0 ! x) (hp0 ! y)
       \<and> (\<forall>b c d. r = Inr (b, c, d) \<longrightarrow>
             length hp0 \<le> b \<and> length hp0 \<le> c \<and> length hp0 \<le> d
           \<and> b < length h' \<and> c < length h' \<and> d < length h')"
proof (cases "length (hp0 ! x) \<noteq> length (hp0 ! y) \<or> length (hp0 ! x) < 3
              \<or> (\<exists>e. MathArrays_checkOrder (hp0 ! x) = Inl e)")
  case True
  with cc show ?thesis
    by (auto simp: h_computeCubicPolyCoefficients_def computeCubicPolyCoefficients_def Let_def
        split: if_splits sum.splits)
next
  case False
  then have ok: "(length (hp0 ! x) \<noteq> length (hp0 ! y)) = False"
    "(length (hp0 ! x) < 3) = False" "MathArrays_checkOrder (hp0 ! x) = Inr ()"
    by (auto intro: sum.exhaust [of "MathArrays_checkOrder (hp0 ! x)"])
  let ?n = "length (hp0 ! x) - 1"
  let ?X = "hp0 ! x" and ?Y = "hp0 ! y"
  let ?L = "length hp0"
  obtain hp1 h where a1: "new_array hp0 (replicate ?n 0) = (hp1, h)"
    by (cases "new_array hp0 (replicate ?n (0::number))")
  define hp2 where "hp2 = fold (\<lambda>i hp. assign hp h i (elem (hp ! x) (i + 1) - elem (hp ! x) i))
                                [0..<?n] hp1"
  obtain hp3 mu where a3: "new_array hp2 (replicate ?n 0) = (hp3, mu)"
    by (cases "new_array hp2 (replicate ?n (0::number))")
  obtain hp4 z where a4: "new_array hp3 (replicate (?n + 1) 0) = (hp4, z)"
    by (cases "new_array hp3 (replicate (?n + 1) (0::number))")
  define hp5 where "hp5 = assign hp4 mu 0 0"
  define hp6 where "hp6 = assign hp5 z 0 0"
  define hp7 where "hp7 = fold (\<lambda>i hp.
                                  (case sweep_step (hp ! x) (hp ! y) (hp ! h) i (hp ! mu, hp ! z) of
                                     (mu1, z1) \<Rightarrow> store (store hp mu mu1) z z1))
                                [1..<?n] hp6"
  obtain hp8 b where a8: "new_array hp7 (replicate ?n 0) = (hp8, b)"
    by (cases "new_array hp7 (replicate ?n (0::number))")
  obtain hp9 c where a9: "new_array hp8 (replicate (?n + 1) 0) = (hp9, c)"
    by (cases "new_array hp8 (replicate (?n + 1) (0::number))")
  obtain hp10 d where a10: "new_array hp9 (replicate ?n 0) = (hp10, d)"
    by (cases "new_array hp9 (replicate ?n (0::number))")
  define hp11 where "hp11 = assign hp10 z ?n 0"
  define hp12 where "hp12 = assign hp11 c ?n 0"
  define hp13 where "hp13 = fold (\<lambda>j hp.
                                    (case back_step (hp ! y) (hp ! h) (hp ! mu) (hp ! z) j
                                            (hp ! b, hp ! c, hp ! d) of
                                       (b1, c1, d1) \<Rightarrow> store (store (store hp b b1) c c1) d d1))
                                  (rev [0..<?n]) hp12"
  have "(hp13, Inr (b, c, d)) = (h', r)"
    using cc
    unfolding h_computeCubicPolyCoefficients_def Let_def ok if_False sum.case a1 prod.case
      hp2_def [symmetric] a3 a4 hp5_def [symmetric] hp6_def [symmetric] hp7_def [symmetric]
      a8 a9 a10 hp11_def [symmetric] hp12_def [symmetric] hp13_def [symmetric] .
  then have res: "h' = hp13" "r = Inr (b, c, d)" by simp_all
  \<comment> \<open>the interval widths\<close>
  from new_array_nth [OF a1] have h: "h = ?L" "hp1 ! h = replicate ?n 0" "length hp1 = Suc ?L"
    by auto
  have v1: "hp1 ! x = ?X" "hp1 ! y = ?Y"
    using new_array_other [OF a1] x y by simp_all
  have rh: "elem (hp ! x) (i + 1) - elem (hp ! x) i = elem ?X (i + 1) - elem ?X i"
    if "agree_except {h} hp1 hp" for i hp
  proof -
    from that x h have "hp ! x = hp1 ! x" by (simp add: agree_except_nth)
    with v1 show ?thesis by simp
  qed
  have h1: "h < length hp1" using h by simp
  from fold_assign_link [OF h1, where g = "\<lambda>i. elem ?X (i + 1) - elem ?X i"
      and f = "\<lambda>hp i. elem (hp ! x) (i + 1) - elem (hp ! x) i" and js = "[0..<?n]"] rh
  have ag2: "agree_except {h} hp1 hp2" and l2: "length hp2 = Suc ?L"
    and h2: "hp2 ! h = fold (\<lambda>i arr. arr[i := elem ?X (i + 1) - elem ?X i]) [0..<?n] (hp1 ! h)"
    unfolding hp2_def h(3) [symmetric] by blast+
  have H: "hp2 ! h = intervalWidths ?X ?n"
    unfolding h2 h(2) intervalWidths_def by (rule fold_update_map)
  let ?H = "intervalWidths ?X ?n"
  have v2: "hp2 ! x = ?X" "hp2 ! y = ?Y"
    using ag2 x y h v1 by (simp_all add: agree_except_nth)
  \<comment> \<open>the forward sweep\<close>
  from new_array_nth [OF a3] l2 have mu: "mu = Suc ?L" "hp3 ! mu = replicate ?n 0"
    "length hp3 = Suc (Suc ?L)" by auto
  have v3: "hp3 ! x = ?X" "hp3 ! y = ?Y" "hp3 ! h = ?H"
    using new_array_other [OF a3] x y h l2 v2 H by simp_all
  from new_array_nth [OF a4] mu have z: "z = Suc (Suc ?L)" "hp4 ! z = replicate (?n + 1) 0"
    "length hp4 = Suc (Suc (Suc ?L))" by auto
  have v4: "hp4 ! x = ?X" "hp4 ! y = ?Y" "hp4 ! h = ?H" "hp4 ! mu = replicate ?n 0"
    using new_array_other [OF a4] x y h mu v3 by simp_all
  have d1: "x \<noteq> mu" "x \<noteq> z" "y \<noteq> mu" "y \<noteq> z" "h \<noteq> mu" "h \<noteq> z" "mu \<noteq> z"
    using x y h mu z by simp_all
  have v5: "hp5 ! x = ?X" "hp5 ! y = ?Y" "hp5 ! h = ?H" "hp5 ! mu = (replicate ?n 0)[0 := 0]"
    "hp5 ! z = replicate (?n + 1) 0" "length hp5 = Suc (Suc (Suc ?L))"
    unfolding hp5_def using d1 v4 z mu
    by (simp_all add: assign_other assign_nth length_assign)
  have v6: "hp6 ! x = ?X" "hp6 ! y = ?Y" "hp6 ! h = ?H" "hp6 ! mu = (replicate ?n 0)[0 := 0]"
    "hp6 ! z = (replicate (?n + 1) 0)[0 := 0]" "length hp6 = Suc (Suc (Suc ?L))"
    unfolding hp6_def using d1 v5 z mu
    by (simp_all add: assign_other assign_nth length_assign)
  have m6: "mu < length hp6" "z < length hp6" using mu z v6(6) by simp_all
  from fold_sweep_link [OF m6 d1(7) d1(1-6), where js = "[1..<?n]"]
  have l7: "length hp7 = Suc (Suc (Suc ?L))"
    and o7: "\<And>a. a \<noteq> mu \<Longrightarrow> a \<noteq> z \<Longrightarrow> hp7 ! a = hp6 ! a"
    and s7: "(hp7 ! mu, hp7 ! z) = forwardSweep ?X ?Y ?H ?n"
    unfolding hp7_def [symmetric] v6 forwardSweep_def by blast+
  obtain MU Z1 where fs: "forwardSweep ?X ?Y ?H ?n = (MU, Z1)"
    by (cases "forwardSweep ?X ?Y ?H ?n")
  have v7: "hp7 ! x = ?X" "hp7 ! y = ?Y" "hp7 ! h = ?H" "hp7 ! mu = MU" "hp7 ! z = Z1"
    using o7 d1 v6 s7 fs by simp_all
  \<comment> \<open>the back substitution\<close>
  from new_array_nth [OF a8] l7 have b: "b = Suc (Suc (Suc ?L))" "hp8 ! b = replicate ?n 0"
    "length hp8 = Suc (Suc (Suc (Suc ?L)))" by auto
  have v8: "hp8 ! y = ?Y" "hp8 ! h = ?H" "hp8 ! mu = MU" "hp8 ! z = Z1"
    using new_array_other [OF a8] y h mu z l7 v7 by simp_all
  from new_array_nth [OF a9] b have c: "c = Suc (Suc (Suc (Suc ?L)))"
    "hp9 ! c = replicate (?n + 1) 0" "length hp9 = Suc (Suc (Suc (Suc (Suc ?L))))" by auto
  have v9: "hp9 ! y = ?Y" "hp9 ! h = ?H" "hp9 ! mu = MU" "hp9 ! z = Z1"
    "hp9 ! b = replicate ?n 0"
    using new_array_other [OF a9] y h mu z b v8 by simp_all
  from new_array_nth [OF a10] c have d: "d = Suc (Suc (Suc (Suc (Suc ?L))))"
    "hp10 ! d = replicate ?n 0" "length hp10 = Suc (Suc (Suc (Suc (Suc (Suc ?L)))))" by auto
  have v10: "hp10 ! y = ?Y" "hp10 ! h = ?H" "hp10 ! mu = MU" "hp10 ! z = Z1"
    "hp10 ! b = replicate ?n 0" "hp10 ! c = replicate (?n + 1) 0"
    using new_array_other [OF a10] y h mu z b c v9 by simp_all
  have d2: "b \<noteq> c" "b \<noteq> d" "c \<noteq> d" "y \<noteq> b" "y \<noteq> c" "y \<noteq> d" "h \<noteq> b" "h \<noteq> c" "h \<noteq> d"
    "mu \<noteq> b" "mu \<noteq> c" "mu \<noteq> d" "z \<noteq> b" "z \<noteq> c" "z \<noteq> d"
    using y h mu z b c d by simp_all
  have v11: "hp11 ! y = ?Y" "hp11 ! h = ?H" "hp11 ! mu = MU" "hp11 ! z = Z1[?n := 0]"
    "hp11 ! b = replicate ?n 0" "hp11 ! c = replicate (?n + 1) 0" "hp11 ! d = replicate ?n 0"
    "length hp11 = Suc (Suc (Suc (Suc (Suc (Suc ?L)))))"
    unfolding hp11_def using d1 d2 v10 d z
    by (simp_all add: assign_other assign_nth length_assign)
  have v12: "hp12 ! y = ?Y" "hp12 ! h = ?H" "hp12 ! mu = MU" "hp12 ! z = Z1[?n := 0]"
    "hp12 ! b = replicate ?n 0" "hp12 ! c = (replicate (?n + 1) 0)[?n := 0]"
    "hp12 ! d = replicate ?n 0" "length hp12 = Suc (Suc (Suc (Suc (Suc (Suc ?L)))))"
    unfolding hp12_def using d1 d2 v11 c
    by (simp_all add: assign_other assign_nth length_assign)
  have m12: "b < length hp12" "c < length hp12" "d < length hp12"
    using b c d v12(8) by simp_all
  from fold_back_link [OF m12 d2, where js = "rev [0..<?n]"]
  have l13: "length hp13 = Suc (Suc (Suc (Suc (Suc (Suc ?L)))))"
    and s13: "(hp13 ! b, hp13 ! c, hp13 ! d) = backSubstitution ?Y ?H MU (Z1[?n := 0]) ?n"
    unfolding hp13_def [symmetric] v12 backSubstitution_def by blast+
  have pure: "computeCubicPolyCoefficients ?X ?Y
                = Inr (backSubstitution ?Y ?H MU (Z1[?n := 0]) ?n)"
    unfolding computeCubicPolyCoefficients_def Let_def ok if_False sum.case fs prod.case ..
  show ?thesis
    using res pure s13 l13 b c d by simp
qed

lemma cubic_link:
  assumes "h_createCubicSplineInterpolator h x y = (h', r)"
    "x < length h" "y < length h"
  shows "map_sum id (call h') r = createCubicSplineInterpolator (h ! x) (h ! y)"
proof -
  obtain h1 r1 where cc: "h_computeCubicPolyCoefficients h x y = (h1, r1)"
    by (cases "h_computeCubicPolyCoefficients h x y")
  from computeCubic_frame [OF cc] have f1: "frame h h1" .
  from computeCubic_link [OF cc assms(2,3)] have
    pure: "map_sum id (\<lambda>(b, c, d). (h1 ! b, h1 ! c, h1 ! d)) r1
             = computeCubicPolyCoefficients (h ! x) (h ! y)"
    and bnd: "\<And>b c d. r1 = Inr (b, c, d) \<Longrightarrow> b < length h1 \<and> c < length h1 \<and> d < length h1"
    by blast+
  show ?thesis
  proof (cases r1)
    case (Inl e)
    with assms(1) cc have "r = Inl e"
      by (simp add: h_createCubicSplineInterpolator_def)
    moreover from pure Inl have "computeCubicPolyCoefficients (h ! x) (h ! y) = Inl e"
      by simp
    ultimately show ?thesis by (simp add: createCubicSplineInterpolator_def)
  next
    case (Inr bcd)
    obtain b c d where bcd: "bcd = (b, c, d)" by (cases bcd)
    from bnd Inr bcd have bl: "b < length h1" "c < length h1" "d < length h1" by simp_all
    from pure Inr bcd have
      pc: "computeCubicPolyCoefficients (h ! x) (h ! y) = Inr (h1 ! b, h1 ! c, h1 ! d)"
      by simp
    have xy: "x < length h1" "y < length h1" "h1 ! x = h ! x" "h1 ! y = h ! y"
      using f1 assms(2,3) frame_length [OF f1] by (simp_all add: frame_nth)
    let ?n = "length (h1 ! x) - 1"
    obtain h2 cf where a2: "new_array h1 (replicate 4 0) = (h2, cf)"
      by (cases "new_array h1 (replicate 4 (0::number))")
    obtain h3 r3 where ps:
      "h_createPolynomials
         (\<lambda>hp i. [elem (hp ! y) i, elem (hp ! b) i, elem (hp ! c) i, elem (hp ! d) i])
         cf [0..<?n] h2 = (h3, r3)"
      by (cases "h_createPolynomials
         (\<lambda>hp i. [elem (hp ! y) i, elem (hp ! b) i, elem (hp ! c) i, elem (hp ! d) i])
         cf [0..<?n] h2")
    have res: "(case (h3, r3) of
                   (h3, Inl e) \<Rightarrow> (h3, Inl e)
                 | (h3, Inr polynomials) \<Rightarrow> h_createPolynomialSplineFunction h3 x polynomials)
                = (h', r)"
      using assms(1)
      unfolding h_createCubicSplineInterpolator_def cc Inr bcd prod.case sum.case Let_def a2 ps .
    from new_array_nth [OF a2] have cf: "cf = length h1" "length h2 = Suc (length h1)" by auto
    have v2: "h2 ! x = h ! x" "h2 ! y = h ! y" "h2 ! b = h1 ! b" "h2 ! c = h1 ! c"
      "h2 ! d = h1 ! d"
      using new_array_other [OF a2] xy bl by simp_all
    let ?rows = "\<lambda>i. [elem (h ! y) i, elem (h1 ! b) i, elem (h1 ! c) i, elem (h1 ! d) i]"
    have rows: "[elem (hp ! y) i, elem (hp ! b) i, elem (hp ! c) i, elem (hp ! d) i] = ?rows i"
      if "agree_except {cf} h2 hp" for i hp
    proof -
      from that xy bl cf have "hp ! y = h2 ! y" "hp ! b = h2 ! b" "hp ! c = h2 ! c"
        "hp ! d = h2 ! d"
        by (simp_all add: agree_except_nth)
      with v2 show ?thesis by simp
    qed
    have c2: "cf < length h2" "x < length h2" "x \<noteq> cf"
      using cf xy by simp_all
    from polynomials_then_spline_link [OF ps res c2, where rows = ?rows] rows
    have "map_sum id (call h') r =
             (case createPolynomials (map ?rows [0..<?n]) of
                Inl e \<Rightarrow> Inl e
              | Inr polynomials \<Rightarrow> createPolynomialSplineFunction (h2 ! x) polynomials)"
      by blast
    also have "\<dots> = createCubicSplineInterpolator (h ! x) (h ! y)"
      unfolding createCubicSplineInterpolator_def pc sum.case prod.case Let_def v2 xy ..
    finally show ?thesis .
  qed
qed

lemma constructor_link:
  assumes "i < length h_constructors" "(h_constructors ! i) h x y = (h', r)"
    "x < length h" "y < length h"
  shows "map_sum id (call h') r = (constructors ! i) (h ! x) (h ! y)"
proof -
  from assms(1) have "i = 0 \<or> i = 1 \<or> i = 2 \<or> i = 3"
    by (auto simp: h_constructors_def)
  then show ?thesis
    using assms(2-4)
    by (auto simp: h_constructors_def constructors_def nearestNeighbor_link linear_link
        cubic_link akima_link)
qed

section \<open>The claims\<close>

subsection \<open>C1: the batch query against the closure\<close>

text \<open>
  C1 asks that \<open>cubicSplineInterpolate(x, y, xq)\<close> agrees, index by index, with the
  closure of \<open>createCubicSplineInterpolator(x, y)\<close>, each query being evaluated as the
  owning segment's polynomial at the query minus that segment's left knot. The code
  subtracts \<open>x\<close> at the index of the query instead. On \<open>x = [0, 1, 2]\<close>,
  \<open>y = [0, 1, 0]\<close>, \<open>xq = [1.5]\<close> the query lies in segment 1, whose polynomial is
  \<open>1 - 3/2 t\<^sup>2 + 1/2 t\<^sup>3\<close>: the closure evaluates it at \<open>1.5 - x[1] = 0.5\<close> and
  returns \<open>11/16\<close>, the batch function evaluates it at \<open>1.5 - x[0] = 1.5\<close> and returns
  \<open>-11/16\<close>.
\<close>

theorem batch_query_reads_wrong_knot:
  "cubicSplineInterpolate [Fin 0, Fin 1, Fin 2] [Fin 0, Fin 1, Fin 0] [Fin (3 / 2)]
     = Some (Inr [Some (Fin (- (11 / 16)))])
   \<and> applied (createCubicSplineInterpolator [Fin 0, Fin 1, Fin 2] [Fin 0, Fin 1, Fin 0])
       (Fin (3 / 2)) = Some (Inr (Fin (11 / 16)))"
  by code_simp

subsection \<open>C2: the order violation\<close>

text \<open>
  C2 as stated fails for the Akima constructor: with three points it raises
  \<open>InsufficientPointsError\<close>, because the minimum of five points is checked before the
  order.
\<close>

theorem akima_three_points_counterexample:
  "createAkimaSplineInterpolator [Fin 1, Fin 1, Fin 2] [Fin 0, Fin 0, Fin 0]
     = Inl InsufficientPointsError"
  by (simp add: createAkimaSplineInterpolator_def)

text \<open>
  C2, amended: with \<open>x = [1, 1, 2]\<close> and any three \<open>y\<close> values the nearest-neighbour,
  linear and cubic constructors raise \<open>OrderError\<close> and the Akima constructor raises
  \<open>InsufficientPointsError\<close>; the Akima constructor raises \<open>OrderError\<close> on every
  sequence \<open>x\<close> of at least five finite numbers (none of them NaN) that is not strictly
  increasing, with a \<open>y\<close> sequence of the same length.
\<close>

theorem order_violation:
  assumes "5 \<le> length xs" "length ys = length xs" "\<not> sorted_wrt (<) xs"
  shows "createNearestNeighborInterpolator [Fin 1, Fin 1, Fin 2] [y0, y1, y2] = Inl OrderError
   \<and> createLinearInterpolator [Fin 1, Fin 1, Fin 2] [y0, y1, y2] = Inl OrderError
   \<and> createCubicSplineInterpolator [Fin 1, Fin 1, Fin 2] [y0, y1, y2] = Inl OrderError
   \<and> createAkimaSplineInterpolator [Fin 1, Fin 1, Fin 2] [y0, y1, y2] = Inl InsufficientPointsError
   \<and> createAkimaSplineInterpolator (map Fin xs) ys = Inl OrderError"
proof -
  have "createAkimaSplineInterpolator (map Fin xs) ys = Inl OrderError"
    using assms by (simp add: createAkimaSplineInterpolator_def Let_def checkOrder_unsorted)
  moreover have
    "createNearestNeighborInterpolator [Fin 1, Fin 1, Fin 2] [y0, y1, y2] = Inl OrderError
     \<and> createLinearInterpolator [Fin 1, Fin 1, Fin 2] [y0, y1, y2] = Inl OrderError
     \<and> createCubicSplineInterpolator [Fin 1, Fin 1, Fin 2] [y0, y1, y2] = Inl OrderError
     \<and> createAkimaSplineInterpolator [Fin 1, Fin 1, Fin 2] [y0, y1, y2]
         = Inl InsufficientPointsError"
    by (simp add: createNearestNeighborInterpolator_def createLinearInterpolator_def
        createCubicSplineInterpolator_def computeCubicPolyCoefficients_def
        createAkimaSplineInterpolator_def MathArrays_checkOrder_def elem_def)
  ultimately show ?thesis by simp
qed

theorem order_violation_witness:
  "(5::nat) \<le> length [1, 1, 2, 3, 4 :: real]
   \<and> length [Fin 0, Fin 1, Fin 0, Fin 1, Fin 0] = length [1, 1, 2, 3, 4 :: real]
   \<and> \<not> sorted_wrt (<) [1, 1, 2, 3, 4 :: real]
   \<and> createNearestNeighborInterpolator [Fin 1, Fin 1, Fin 2] [Fin 0, Fin 1, Fin 0] = Inl OrderError
   \<and> createLinearInterpolator [Fin 1, Fin 1, Fin 2] [Fin 0, Fin 1, Fin 0] = Inl OrderError
   \<and> createCubicSplineInterpolator [Fin 1, Fin 1, Fin 2] [Fin 0, Fin 1, Fin 0] = Inl OrderError
   \<and> createAkimaSplineInterpolator [Fin 1, Fin 1, Fin 2] [Fin 0, Fin 1, Fin 0]
       = Inl InsufficientPointsError
   \<and> createAkimaSplineInterpolator (map Fin [1, 1, 2, 3, 4])
        [Fin 0, Fin 1, Fin 0, Fin 1, Fin 0] = Inl OrderError"
  using order_violation [of "[1, 1, 2, 3, 4]" "[Fin 0, Fin 1, Fin 0, Fin 1, Fin 0]"
      "Fin 0" "Fin 1" "Fin 0"]
  by simp

subsection \<open>C3: the lengths of the coefficient arrays\<close>

text \<open>
  C3 as stated fails: on three points (\<open>n = 2\<close> intervals) the array \<open>c\<close> has three
  elements, not two.
\<close>

theorem cubic_c_length_counterexample:
  "computeCubicPolyCoefficients [Fin 0, Fin 1, Fin 2] [Fin 0, Fin 1, Fin 0]
     = Inr ([Fin (3 / 2), Fin 0], [Fin 0, Fin (- (3 / 2)), Fin 0], [Fin (- (1 / 2)), Fin (1 / 2)])"
  by code_simp

text \<open>
  C3, amended: for every valid input with \<open>n + 1 \<ge> 3\<close> points and \<open>x\<close> strictly
  increasing, \<open>computeCubicPolyCoefficients\<close> returns three arrays \<open>b\<close>, \<open>c\<close>, \<open>d\<close>, where
  \<open>b\<close> and \<open>d\<close> have length \<open>n\<close>, \<open>c\<close> has length \<open>n + 1\<close>, and \<open>c[n]\<close> is 0.
\<close>

theorem cubic_coefficient_lengths:
  assumes "sorted_wrt (<) xs" "3 \<le> length xs" "length ys = length xs"
  shows "\<exists>b c d. computeCubicPolyCoefficients (map Fin xs) (map Fin ys) = Inr (b, c, d)
           \<and> length b = length xs - 1 \<and> length c = length xs - 1 + 1
           \<and> length d = length xs - 1 \<and> c ! (length xs - 1) = Fin 0"
proof -
  let ?n = "length xs - 1"
  let ?h = "intervalWidths (map Fin xs) ?n"
  obtain mu z1 where fs: "forwardSweep (map Fin xs) (map Fin ys) ?h ?n = (mu, z1)"
    by (cases "forwardSweep (map Fin xs) (map Fin ys) ?h ?n") blast
  obtain b c d where
    bcd: "backSubstitution (map Fin ys) ?h mu (z1[?n := 0]) ?n = (b, c, d)"
    using prod_cases3 by blast
  have "computeCubicPolyCoefficients (map Fin xs) (map Fin ys) = Inr (b, c, d)"
    using assms fs bcd by (simp add: computeCubicPolyCoefficients_def Let_def checkOrder_ok)
  moreover from length_fold_back_step [OF bcd [unfolded backSubstitution_def]]
  have "length b = ?n \<and> length c = ?n + 1 \<and> length d = ?n"
    by (simp del: replicate.simps)
  moreover from fold_back_step_keeps [OF bcd [unfolded backSubstitution_def], of ?n]
  have "c ! ?n = Fin 0"
    by (simp del: replicate.simps add: zero_number_def)
  ultimately show ?thesis by simp
qed

theorem cubic_coefficient_lengths_witness:
  "sorted_wrt (<) [0, 1, 2 :: real] \<and> (3::nat) \<le> length [0, 1, 2 :: real]
   \<and> length [0, 1, 0 :: real] = length [0, 1, 2 :: real]
   \<and> (\<exists>b c d. computeCubicPolyCoefficients (map Fin [0, 1, 2]) (map Fin [0, 1, 0]) = Inr (b, c, d)
          \<and> length b = 2 \<and> length c = 3 \<and> length d = 2 \<and> c ! 2 = Fin 0)"
  using cubic_coefficient_lengths [of "[0, 1, 2]" "[0, 1, 0]"]
  by (simp add: numeral_2_eq_2 numeral_3_eq_3)

subsection \<open>C4: interpolation at the knots\<close>

text \<open>
  C4: for every valid sample set that meets the minimum number of points of the
  constructor, with \<open>x\<close> strictly increasing, the evaluator of each of the four constructors
  returns \<open>y[i]\<close> at \<open>x[i]\<close> for every knot index \<open>i\<close>, over exact arithmetic; and
  for \<open>x = [0, 1, 2, 3, 4, 5, 6]\<close>, \<open>y = [0, 1, 0, 1, 0, 1, 0]\<close> the Akima evaluator
  returns 0 at the queries 0 and 6. The array has fewer than \<open>2\<^sup>3\<^sup>1\<close> elements.
\<close>

theorem interpolation_at_knots:
  assumes "sorted_wrt (<) xs" "length ys = length xs" "length xs < 2 ^ 31" "i < length xs"
  shows "(\<exists>f. createNearestNeighborInterpolator (map Fin xs) (map Fin ys) = Inr f
            \<and> f (Fin (xs ! i)) = Some (Inr (Fin (ys ! i))))
       \<and> (2 \<le> length xs \<longrightarrow>
            (\<exists>f. createLinearInterpolator (map Fin xs) (map Fin ys) = Inr f
               \<and> f (Fin (xs ! i)) = Some (Inr (Fin (ys ! i)))))
       \<and> (3 \<le> length xs \<longrightarrow>
            (\<exists>f. createCubicSplineInterpolator (map Fin xs) (map Fin ys) = Inr f
               \<and> f (Fin (xs ! i)) = Some (Inr (Fin (ys ! i)))))
       \<and> (5 \<le> length xs \<longrightarrow>
            (\<exists>f. createAkimaSplineInterpolator (map Fin xs) (map Fin ys) = Inr f
               \<and> f (Fin (xs ! i)) = Some (Inr (Fin (ys ! i)))))
       \<and> applied (createAkimaSplineInterpolator (map Fin [0, 1, 2, 3, 4, 5, 6])
                    (map Fin [0, 1, 0, 1, 0, 1, 0])) (Fin 0) = Some (Inr (Fin 0))
       \<and> applied (createAkimaSplineInterpolator (map Fin [0, 1, 2, 3, 4, 5, 6])
                    (map Fin [0, 1, 0, 1, 0, 1, 0])) (Fin 6) = Some (Inr (Fin 0))"
proof (intro conjI impI)
  show "\<exists>f. createNearestNeighborInterpolator (map Fin xs) (map Fin ys) = Inr f
            \<and> f (Fin (xs ! i)) = Some (Inr (Fin (ys ! i)))"
    using nearestNeighbor_knots [of xs ys] assms by blast
  show "\<exists>f. createLinearInterpolator (map Fin xs) (map Fin ys) = Inr f
               \<and> f (Fin (xs ! i)) = Some (Inr (Fin (ys ! i)))" if "2 \<le> length xs"
    using linear_knots [of xs ys] assms that by blast
  show "\<exists>f. createCubicSplineInterpolator (map Fin xs) (map Fin ys) = Inr f
               \<and> f (Fin (xs ! i)) = Some (Inr (Fin (ys ! i)))" if "3 \<le> length xs"
    using cubic_knots [of xs ys] assms that by blast
  show "\<exists>f. createAkimaSplineInterpolator (map Fin xs) (map Fin ys) = Inr f
               \<and> f (Fin (xs ! i)) = Some (Inr (Fin (ys ! i)))" if "5 \<le> length xs"
    using akima_knots [of xs ys] assms that by blast
  show "applied (createAkimaSplineInterpolator (map Fin [0, 1, 2, 3, 4, 5, 6])
                    (map Fin [0, 1, 0, 1, 0, 1, 0])) (Fin 0) = Some (Inr (Fin 0))"
    by code_simp
  show "applied (createAkimaSplineInterpolator (map Fin [0, 1, 2, 3, 4, 5, 6])
                    (map Fin [0, 1, 0, 1, 0, 1, 0])) (Fin 6) = Some (Inr (Fin 0))"
    by code_simp
qed

theorem interpolation_at_knots_witness:
  "sorted_wrt (<) [0, 1, 2, 3, 4, 5, 6 :: real]
   \<and> length [0, 1, 0, 1, 0, 1, 0 :: real] = length [0, 1, 2, 3, 4, 5, 6 :: real]
   \<and> length [0, 1, 2, 3, 4, 5, 6 :: real] < 2 ^ 31
   \<and> (3::nat) < length [0, 1, 2, 3, 4, 5, 6 :: real]
   \<and> (5::nat) \<le> length [0, 1, 2, 3, 4, 5, 6 :: real]
   \<and> (\<exists>f. createNearestNeighborInterpolator (map Fin [0, 1, 2, 3, 4, 5, 6])
             (map Fin [0, 1, 0, 1, 0, 1, 0]) = Inr f \<and> f (Fin 3) = Some (Inr (Fin 1)))
   \<and> (\<exists>f. createLinearInterpolator (map Fin [0, 1, 2, 3, 4, 5, 6])
             (map Fin [0, 1, 0, 1, 0, 1, 0]) = Inr f \<and> f (Fin 3) = Some (Inr (Fin 1)))
   \<and> (\<exists>f. createCubicSplineInterpolator (map Fin [0, 1, 2, 3, 4, 5, 6])
             (map Fin [0, 1, 0, 1, 0, 1, 0]) = Inr f \<and> f (Fin 3) = Some (Inr (Fin 1)))
   \<and> (\<exists>f. createAkimaSplineInterpolator (map Fin [0, 1, 2, 3, 4, 5, 6])
             (map Fin [0, 1, 0, 1, 0, 1, 0]) = Inr f \<and> f (Fin 3) = Some (Inr (Fin 1)))"
  using interpolation_at_knots [of "[0, 1, 2, 3, 4, 5, 6]" "[0, 1, 0, 1, 0, 1, 0]" 3]
  by simp

subsection \<open>C5: the linear blend\<close>

text \<open>
  C5: for valid \<open>(x, y)\<close> with at least two points and \<open>x\<close> strictly increasing, the
  evaluator of \<open>createLinearInterpolator\<close> at a query \<open>q\<close> with
  \<open>x[i] \<le> q \<le> x[i+1]\<close> returns
  \<open>y[i] + (q - x[i]) * (y[i+1] - y[i]) / (x[i+1] - x[i])\<close>, over exact arithmetic; and
  \<open>createLinearInterpolator([0, 2], [0, 10])(1)\<close> is 5. The array has fewer than
  \<open>2\<^sup>3\<^sup>1\<close> elements, as the unsigned shift of the binary search requires.
\<close>

theorem linear_blend:
  assumes srt: "sorted_wrt (<) xs" and len: "2 \<le> length xs" "length xs < 2 ^ 31"
    and ys: "length ys = length xs"
    and i: "i + 1 < length xs" and q: "xs ! i \<le> q" "q \<le> xs ! (i + 1)"
  shows "(\<exists>f. createLinearInterpolator (map Fin xs) (map Fin ys) = Inr f
           \<and> f (Fin q) = Some (Inr (Fin
                 (ys ! i + (q - xs ! i) * (ys ! (i + 1) - ys ! i) / (xs ! (i + 1) - xs ! i)))))
         \<and> applied (createLinearInterpolator [Fin 0, Fin 2] [Fin 0, Fin 10]) (Fin 1)
             = Some (Inr (Fin 5))"
proof
  from linear_exists [OF srt len ys] obtain f where
    f: "createLinearInterpolator (map Fin xs) (map Fin ys) = Inr f"
    and v: "\<And>q. f (Fin q) = Some (Inr (Fin
                 (ys ! segmentIndex xs q + (q - xs ! segmentIndex xs q)
                    * (ys ! (segmentIndex xs q + 1) - ys ! segmentIndex xs q)
                    / (xs ! (segmentIndex xs q + 1) - xs ! segmentIndex xs q))))"
    by blast
  have lt: "xs ! i < xs ! (i + 1)"
    using srt i by (simp add: sorted_wrt_iff_nth_less)
  show "\<exists>f. createLinearInterpolator (map Fin xs) (map Fin ys) = Inr f
           \<and> f (Fin q) = Some (Inr (Fin
                 (ys ! i + (q - xs ! i) * (ys ! (i + 1) - ys ! i) / (xs ! (i + 1) - xs ! i))))"
  proof (cases "q < xs ! (i + 1)")
    case True
    then have "segmentIndex xs q = i"
      using srt i q by (intro segmentIndex_between) auto
    with f v [of q] show ?thesis by simp
  next
    case False
    with q have qe: "q = xs ! (i + 1)" by simp
    have s: "segmentIndex xs q = min (i + 1) (length xs - 2)"
      unfolding qe using srt len(1) i by (intro segmentIndex_knot) auto
    show ?thesis
    proof (cases "i + 1 \<le> length xs - 2")
      case True
      with s have "segmentIndex xs q = i + 1" by simp
      with v [of q] have "f (Fin q) = Some (Inr (Fin (ys ! (i + 1))))"
        by (simp add: qe)
      moreover have "ys ! i + (q - xs ! i) * (ys ! (i + 1) - ys ! i) / (xs ! (i + 1) - xs ! i)
                       = ys ! (i + 1)"
        using lt by (simp add: qe)
      ultimately show ?thesis using f by simp
    next
      case False
      with s i have "segmentIndex xs q = i" by simp
      with f v [of q] show ?thesis by simp
    qed
  qed
next
  show "applied (createLinearInterpolator [Fin 0, Fin 2] [Fin 0, Fin 10]) (Fin 1)
          = Some (Inr (Fin 5))"
    by code_simp
qed

theorem linear_blend_witness:
  "sorted_wrt (<) [0, 2 :: real] \<and> (2::nat) \<le> length [0, 2 :: real]
   \<and> length [0, 2 :: real] < 2 ^ 31 \<and> length [0, 10 :: real] = length [0, 2 :: real]
   \<and> (0::nat) + 1 < length [0, 2 :: real] \<and> [0, 2 :: real] ! 0 \<le> 1 \<and> 1 \<le> [0, 2 :: real] ! (0 + 1)
   \<and> (\<exists>f. createLinearInterpolator (map Fin [0, 2]) (map Fin [0, 10]) = Inr f
          \<and> f (Fin 1) = Some (Inr (Fin 5)))"
  using linear_blend [of "[0, 2]" "[0, 10]" 0 1] by simp

subsection \<open>C6: the nearest-neighbour evaluator\<close>

text \<open>
  C6: constructed from empty sequences the nearest-neighbour evaluator returns \<open>NaN\<close> for
  every query; constructed from one-element sequences it returns \<open>y[0]\<close> for every query;
  and for \<open>n \<ge> 2\<close> a query exactly midway between two adjacent knots returns the \<open>y\<close>
  value of the right knot. In the last case \<open>x\<close> is strictly increasing, with fewer than
  \<open>2\<^sup>3\<^sup>1\<close> elements.
\<close>

theorem nearest_neighbor_cases:
  "(\<exists>f. createNearestNeighborInterpolator [] [] = Inr f \<and> (\<forall>q. f q = Some (Inr NaN)))
   \<and> (\<exists>f. createNearestNeighborInterpolator [x0] [y0] = Inr f \<and> (\<forall>q. f q = Some (Inr y0)))
   \<and> (sorted_wrt (<) xs \<and> 2 \<le> length xs \<and> length xs < 2 ^ 31 \<and> length ys = length xs
        \<and> i + 1 < length xs \<longrightarrow>
       (\<exists>f. createNearestNeighborInterpolator (map Fin xs) ys = Inr f
          \<and> f (Fin ((xs ! i + xs ! (i + 1)) / 2)) = Some (Inr (ys ! (i + 1)))))"
proof (intro conjI impI)
  show "\<exists>f. createNearestNeighborInterpolator [] [] = Inr f \<and> (\<forall>q. f q = Some (Inr NaN))"
    by (simp add: createNearestNeighborInterpolator_def)
  show "\<exists>f. createNearestNeighborInterpolator [x0] [y0] = Inr f \<and> (\<forall>q. f q = Some (Inr y0))"
    by (simp add: createNearestNeighborInterpolator_def elem_def)
  assume a: "sorted_wrt (<) xs \<and> 2 \<le> length xs \<and> length xs < 2 ^ 31 \<and> length ys = length xs
        \<and> i + 1 < length xs"
  then have "createNearestNeighborInterpolator (map Fin xs) ys
               = Inr (nearestNeighborEval (map Fin xs) ys (length xs))"
    by (auto simp: createNearestNeighborInterpolator_def Let_def checkOrder_ok)
  with a nn_mid [of xs ys i]
  show "\<exists>f. createNearestNeighborInterpolator (map Fin xs) ys = Inr f
          \<and> f (Fin ((xs ! i + xs ! (i + 1)) / 2)) = Some (Inr (ys ! (i + 1)))"
    by simp
qed

theorem nearest_neighbor_cases_witness:
  "sorted_wrt (<) [0, 2, 4 :: real] \<and> (2::nat) \<le> length [0, 2, 4 :: real]
   \<and> length [0, 2, 4 :: real] < 2 ^ 31 \<and> length [Fin 5, Fin 6, Fin 7] = length [0, 2, 4 :: real]
   \<and> (0::nat) + 1 < length [0, 2, 4 :: real]
   \<and> (\<exists>f. createNearestNeighborInterpolator (map Fin [0, 2, 4]) [Fin 5, Fin 6, Fin 7] = Inr f
          \<and> f (Fin 1) = Some (Inr (Fin 6)))"
  using nearest_neighbor_cases [of 0 0 "[0, 2, 4]" "[Fin 5, Fin 6, Fin 7]" 0] by simp

subsection \<open>C7: where the errors are raised\<close>

text \<open>
  C7: the binary search raises \<open>InvalidValueError\<close> exactly when a comparison of an
  inspected element with the key yields neither less-than, greater-than nor equal, that
  is when the element or the key is \<open>NaN\<close>. A constructor never raises that error: the
  errors of the four constructors are among \<open>DimensionMismatchError\<close>,
  \<open>InsufficientPointsError\<close> and \<open>OrderError\<close>, and \<open>EmptyCoefficientsError\<close> is raised by
  \<open>createPolynomialFunction\<close> when the polynomial is built. An evaluator that a
  constructor has returned raises no error but \<open>InvalidValueError\<close>.
\<close>

theorem invalid_value_only_at_query:
  "(Arrays_binarySearch a key = Some (Inl e) \<longleftrightarrow>
      e = InvalidValueError
      \<and> (\<exists>m. inspects a key 0 (int (length a) - 1) m \<and> incomparable (elem_int a m) key))
   \<and> (incomparable u v \<longleftrightarrow> u = NaN \<or> v = NaN)
   \<and> (\<forall>create \<in> set constructors.
         (\<forall>e1. create x y = Inl e1 \<longrightarrow> e1 \<in> construction_errors)
         \<and> (\<forall>f q e2. create x y = Inr f \<and> f q = Some (Inl e2) \<longrightarrow> e2 = InvalidValueError))
   \<and> (createPolynomialFunction c = Inl e3 \<longleftrightarrow> c = [] \<and> e3 = EmptyCoefficientsError)"
proof (intro conjI ballI)
  show "Arrays_binarySearch a key = Some (Inl e) \<longleftrightarrow>
      e = InvalidValueError
      \<and> (\<exists>m. inspects a key 0 (int (length a) - 1) m \<and> incomparable (elem_int a m) key)"
    by (rule binarySearch_error_iff)
  show "incomparable u v \<longleftrightarrow> u = NaN \<or> v = NaN"
    by (rule incomparable_iff)
  show "createPolynomialFunction c = Inl e3 \<longleftrightarrow> c = [] \<and> e3 = EmptyCoefficientsError"
    by (rule createPolynomialFunction_error_iff)
next
  fix create assume "create \<in> set constructors"
  then consider "create = createNearestNeighborInterpolator"
    | "create = createLinearInterpolator" | "create = createCubicSplineInterpolator"
    | "create = createAkimaSplineInterpolator"
    by (auto simp: constructors_def)
  then show "\<forall>e1. create x y = Inl e1 \<longrightarrow> e1 \<in> construction_errors"
    by cases (auto dest: nearestNeighbor_results(1) linear_results(1) cubic_results(1)
        akima_results(1))
next
  fix create assume "create \<in> set constructors"
  then consider "create = createNearestNeighborInterpolator"
    | "create = createLinearInterpolator" | "create = createCubicSplineInterpolator"
    | "create = createAkimaSplineInterpolator"
    by (auto simp: constructors_def)
  then show "\<forall>f q e2. create x y = Inr f \<and> f q = Some (Inl e2) \<longrightarrow> e2 = InvalidValueError"
    by cases (auto dest: nearestNeighbor_results(2) linear_results(2) cubic_results(2)
        akima_results(2))
qed

theorem invalid_value_only_at_query_witness:
  "Arrays_binarySearch [Fin 0, NaN, Fin 2] (Fin 1) = Some (Inl InvalidValueError)
   \<and> createLinearInterpolator \<in> set constructors
   \<and> createLinearInterpolator [Fin 1, Fin 1, Fin 2] [Fin 0, Fin 0, Fin 0] = Inl OrderError
   \<and> OrderError \<in> construction_errors
   \<and> applied (createLinearInterpolator [Fin 0, NaN, Fin 2] [Fin 0, Fin 1, Fin 2]) (Fin 1)
       = Some (Inl InvalidValueError)
   \<and> createPolynomialFunction [] = Inl EmptyCoefficientsError"
proof -
  let ?a = "[Fin 0, NaN, Fin 2]"
  have "inspects ?a (Fin 1) 0 2 ((0 + 2) mod 2 ^ 32 div 2)"
    by (rule inspects_mid) simp
  then have insp: "inspects ?a (Fin 1) 0 (int (length ?a) - 1) 1" by simp
  have inc: "incomparable (elem_int ?a 1) (Fin 1)"
    by (simp add: incomparable_def elem_int_def elem_def)
  have "Arrays_binarySearch ?a (Fin 1) = Some (Inl InvalidValueError) \<longleftrightarrow>
      InvalidValueError = InvalidValueError
      \<and> (\<exists>m. inspects ?a (Fin 1) 0 (int (length ?a) - 1) m \<and> incomparable (elem_int ?a m) (Fin 1))"
    by (rule invalid_value_only_at_query [of ?a "Fin 1" InvalidValueError, THEN conjunct1])
  with insp inc have 1: "Arrays_binarySearch ?a (Fin 1) = Some (Inl InvalidValueError)"
    by blast
  have 2: "createLinearInterpolator \<in> set constructors"
    "createLinearInterpolator [Fin 1, Fin 1, Fin 2] [Fin 0, Fin 0, Fin 0] = Inl OrderError"
    "OrderError \<in> construction_errors"
    "createPolynomialFunction [] = Inl EmptyCoefficientsError"
    by (simp_all add: constructors_def createLinearInterpolator_def MathArrays_checkOrder_def
        elem_def construction_errors_def createPolynomialFunction_def)
  have 3: "applied (createLinearInterpolator [Fin 0, NaN, Fin 2] [Fin 0, Fin 1, Fin 2]) (Fin 1)
       = Some (Inl InvalidValueError)"
    by code_simp
  from 1 2 3 show ?thesis by blast
qed

subsection \<open>C8: the segment of a query\<close>

text \<open>
  C8 as stated fails at the query NaN: the binary search compares NaN with a knot, no
  comparison holds, and the evaluator raises \<open>InvalidValueError\<close> instead of returning
  the value of a segment.
\<close>

theorem spline_nan_query_counterexample:
  "applied (createPolynomialSplineFunction [Fin 0, Fin 1, Fin 3] [\<lambda>t. t, \<lambda>t. t + t]) NaN
     = Some (Inl InvalidValueError)"
  by (simp add: applied_def createPolynomialSplineFunction_def MathArrays_checkOrder_def
      elem_def splineEval_NaN)

text \<open>
  C8, amended: for a spline evaluator built from \<open>m \<ge> 2\<close> strictly increasing knots and
  \<open>m - 1\<close> polynomials, and every finite query (a real number, not NaN), the segment
  index used is the insertion point minus one (the found index on an exact match),
  clamped to \<open>[0, m - 2]\<close>; a query below the first knot uses the first segment, a query
  above the last knot the last segment; and the value returned is
  \<open>segment[i](x - knot[i])\<close>. At the query NaN the evaluator raises \<open>InvalidValueError\<close>.
  The array has fewer than \<open>2\<^sup>3\<^sup>1\<close> elements.
\<close>

theorem spline_segment_selection:
  assumes "sorted_wrt (<) ks" "2 \<le> length ks" "length ks < 2 ^ 31"
    and "length polynomials = length ks - 1"
  shows "(\<exists>f. createPolynomialSplineFunction (map Fin ks) polynomials = Inr f
           \<and> (\<forall>q. f (Fin q) =
                 Some (Inr ((polynomials ! segmentIndex ks q)
                              (Fin q - Fin (ks ! segmentIndex ks q)))))
           \<and> f NaN = Some (Inl InvalidValueError))
       \<and> (\<forall>q. segmentIndex ks q \<le> length ks - 2)
       \<and> (\<forall>q. q < ks ! 0 \<longrightarrow> segmentIndex ks q = 0)
       \<and> (\<forall>q. ks ! (length ks - 1) < q \<longrightarrow> segmentIndex ks q = length ks - 2)
       \<and> (\<forall>k < length ks. int (insertionPoint ks (ks ! k)) - 1 = int k)"
proof (intro conjI)
  show "\<exists>f. createPolynomialSplineFunction (map Fin ks) polynomials = Inr f
           \<and> (\<forall>q. f (Fin q) =
                 Some (Inr ((polynomials ! segmentIndex ks q)
                              (Fin q - Fin (ks ! segmentIndex ks q)))))
           \<and> f NaN = Some (Inl InvalidValueError)"
  proof -
    from assms(2) have "0 < length (map Fin ks)" by (cases ks) simp_all
    then have "splineEval (map Fin ks) polynomials NaN = Some (Inl InvalidValueError)"
      by (rule splineEval_NaN)
    with assms show ?thesis
      by (simp add: createPolynomialSplineFunction_ok splineEval_sorted)
  qed
  show "\<forall>q. segmentIndex ks q \<le> length ks - 2"
    using assms(2) by (auto simp: segmentIndex_def)
  show "\<forall>q. q < ks ! 0 \<longrightarrow> segmentIndex ks q = 0"
    using assms by (simp add: segmentIndex_below)
  show "\<forall>q. ks ! (length ks - 1) < q \<longrightarrow> segmentIndex ks q = length ks - 2"
    using assms by (simp add: segmentIndex_above)
  show "\<forall>k < length ks. int (insertionPoint ks (ks ! k)) - 1 = int k"
  proof (intro allI impI)
    fix k assume k: "k < length ks"
    have "insertionPoint ks (ks ! k) = k + 1"
      using assms(1) k
      by (intro insertionPoint_sorted) (auto simp: sorted_wrt_iff_nth_less)
    then show "int (insertionPoint ks (ks ! k)) - 1 = int k" by simp
  qed
qed

theorem spline_segment_selection_witness:
  "sorted_wrt (<) [0, 1, 3 :: real] \<and> (2::nat) \<le> length [0, 1, 3 :: real]
   \<and> length [0, 1, 3 :: real] < 2 ^ 31
   \<and> length [\<lambda>t. t, \<lambda>t. t + t] = length [0, 1, 3 :: real] - 1
   \<and> (\<exists>f. createPolynomialSplineFunction (map Fin [0, 1, 3]) [\<lambda>t. t, \<lambda>t. t + t] = Inr f
          \<and> f (Fin 2) = Some (Inr (Fin 2))
          \<and> f (Fin (- 1)) = Some (Inr (Fin (- 1)))
          \<and> f (Fin 5) = Some (Inr (Fin 8))
          \<and> f NaN = Some (Inl InvalidValueError))"
proof -
  have seg: "segmentIndex [0, 1, 3] 2 = 1" "segmentIndex [0, 1, 3] (- 1) = 0"
    "segmentIndex [0, 1, 3] 5 = 1"
    by (simp_all add: segmentIndex_def insertionPoint_def)
  from spline_segment_selection [of "[0, 1, 3]" "[\<lambda>t. t, \<lambda>t. t + t]"] seg
  show ?thesis by fastforce
qed

subsection \<open>C10: NaN passes the order check\<close>

text \<open>
  C10: \<open>MathArrays_checkOrder\<close> accepts \<open>[0, NaN, 2]\<close>, since no comparison with \<open>NaN\<close>
  holds; a constructor succeeds on it, and its evaluator then raises
  \<open>InvalidValueError\<close> at every query. On \<open>[NaN, 1, 2]\<close> the constructor succeeds as well
  and the query 1.5 returns a value without any error, the search never reading the
  \<open>NaN\<close>.
\<close>

theorem nan_passes_order_check:
  "MathArrays_checkOrder [Fin 0, NaN, Fin 2] = Inr ()
   \<and> (\<forall>v. \<not> v \<le> NaN \<and> \<not> NaN \<le> v)
   \<and> (\<exists>f. createLinearInterpolator [Fin 0, NaN, Fin 2] [Fin 0, Fin 1, Fin 2] = Inr f
          \<and> (\<forall>q. f q = Some (Inl InvalidValueError)))
   \<and> (\<exists>f. createLinearInterpolator [NaN, Fin 1, Fin 2] [Fin 0, Fin 1, Fin 2] = Inr f
          \<and> f (Fin (3 / 2)) = Some (Inr (Fin (3 / 2))))"
proof (intro conjI)
  show "MathArrays_checkOrder [Fin 0, NaN, Fin 2] = Inr ()"
    by (simp add: MathArrays_checkOrder_def elem_def)
  show "\<forall>v. \<not> v \<le> NaN \<and> \<not> NaN \<le> v" by simp
  have bs: "Arrays_binarySearch [Fin 0, NaN, Fin 2] q = Some (Inl InvalidValueError)" for q
    unfolding Arrays_binarySearch_def
    by (subst binarySearch_loop.simps) (simp add: elem_int_def elem_def)
  show "\<exists>f. createLinearInterpolator [Fin 0, NaN, Fin 2] [Fin 0, Fin 1, Fin 2] = Inr f
          \<and> (\<forall>q. f q = Some (Inl InvalidValueError))"
    by (simp add: createLinearInterpolator_def MathArrays_checkOrder_def elem_def
        createPolynomialFunction_def createPolynomialSplineFunction_def splineEval_def
        bs Let_def zero_number_def)
  have "applied (createLinearInterpolator [NaN, Fin 1, Fin 2] [Fin 0, Fin 1, Fin 2])
          (Fin (3 / 2)) = Some (Inr (Fin (3 / 2)))"
    by code_simp
  then show "\<exists>f. createLinearInterpolator [NaN, Fin 1, Fin 2] [Fin 0, Fin 1, Fin 2] = Inr f
          \<and> f (Fin (3 / 2)) = Some (Inr (Fin (3 / 2)))"
    by (rule applied_value)
qed

subsection \<open>C9: the constructors copy what they capture\<close>

text \<open>
  C9: a constructor never changes the arrays \<open>x\<close> and \<open>y\<close> of its caller (nor any other
  array that existed before the call), and writes to those arrays after the constructor
  has returned do not change any value that the evaluator returns: two stores that agree
  on the arrays allocated by the constructor give the same result for every query.
\<close>

theorem constructors_copy_their_inputs:
  assumes "create \<in> set h_constructors" "create h x y = (h', r)"
  shows "(\<forall>a < length h. h' ! a = h ! a)
       \<and> (\<forall>clo h'' q. r = Inr clo
             \<and> (\<forall>a. length h \<le> a \<and> a < length h' \<longrightarrow> h'' ! a = h' ! a) \<longrightarrow>
             call h'' clo q = call h' clo q)
       \<and> (\<forall>clo x' y' q. r = Inr clo \<and> x < length h \<and> y < length h \<longrightarrow>
             call (store (store h' x x') y y') clo q = call h' clo q)"
proof -
  from constructor_frame [OF assms] have fr: "frame h h'" and fc: "fresh_closure h h' r"
    by simp_all
  have 1: "\<forall>a < length h. h' ! a = h ! a"
    using fr by (simp add: frame_nth)
  have 2: "call h'' clo q = call h' clo q"
    if "r = Inr clo" "\<forall>a. length h \<le> a \<and> a < length h' \<longrightarrow> h'' ! a = h' ! a" for clo h'' q
  proof -
    from fc that(1) have "\<forall>a \<in> captured clo. length h \<le> a \<and> a < length h'"
      by (simp add: fresh_closure_def)
    with that(2) have "\<forall>a \<in> captured clo. h'' ! a = h' ! a" by blast
    then have "call h'' clo = call h' clo" by (rule call_cong)
    then show ?thesis by simp
  qed
  have 3: "call (store (store h' x x') y y') clo q = call h' clo q"
    if "r = Inr clo" "x < length h" "y < length h" for clo x' y' q
  proof (rule 2 [OF that(1)], intro allI impI)
    fix a assume "length h \<le> a \<and> a < length h'"
    with that(2,3) have "a \<noteq> x" "a \<noteq> y" by simp_all
    then show "store (store h' x x') y y' ! a = h' ! a"
      by (simp add: store_def)
  qed
  from 1 2 3 show ?thesis by blast
qed

theorem constructors_copy_their_inputs_witness:
  "h_createLinearInterpolator \<in> set h_constructors
   \<and> h_createLinearInterpolator [[Fin 0, Fin 2], [Fin 0, Fin 10]] 0 1
       = ([[Fin 0, Fin 2], [Fin 0, Fin 10], [Fin 5], [Fin 0, Fin 5], [Fin 0, Fin 5],
           [Fin 0, Fin 2]],
          Inr (SplineFunction 5 [Polynomial 4 2]))
   \<and> (0::nat) < length [[Fin 0, Fin 2], [Fin 0, Fin 10]]
   \<and> (1::nat) < length [[Fin 0, Fin 2], [Fin 0, Fin 10]]
   \<and> call (store (store [[Fin 0, Fin 2], [Fin 0, Fin 10], [Fin 5], [Fin 0, Fin 5],
                          [Fin 0, Fin 5], [Fin 0, Fin 2]] 0 [Fin 7, Fin 8]) 1 [NaN, Fin 1])
        (SplineFunction 5 [Polynomial 4 2]) (Fin 1)
       = call [[Fin 0, Fin 2], [Fin 0, Fin 10], [Fin 5], [Fin 0, Fin 5], [Fin 0, Fin 5],
               [Fin 0, Fin 2]]
           (SplineFunction 5 [Polynomial 4 2]) (Fin 1)
   \<and> call [[Fin 0, Fin 2], [Fin 0, Fin 10], [Fin 5], [Fin 0, Fin 5], [Fin 0, Fin 5],
            [Fin 0, Fin 2]]
        (SplineFunction 5 [Polynomial 4 2]) (Fin 1) = Some (Inr (Fin 5))"
proof -
  let ?h = "[[Fin 0, Fin 2], [Fin 0, Fin 10]]"
  let ?h' = "[[Fin 0, Fin 2], [Fin 0, Fin 10], [Fin 5], [Fin 0, Fin 5], [Fin 0, Fin 5],
              [Fin 0, Fin 2]]"
  let ?clo = "SplineFunction 5 [Polynomial 4 2]"
  have m: "h_createLinearInterpolator \<in> set h_constructors"
    by (simp add: h_constructors_def)
  have ev: "h_createLinearInterpolator ?h 0 1 = (?h', Inr ?clo)"
    by code_simp
  have len: "(0::nat) < length ?h" "(1::nat) < length ?h" by simp_all
  have v: "call ?h' ?clo (Fin 1) = Some (Inr (Fin 5))"
    by code_simp
  from constructors_copy_their_inputs [OF m ev] len
  have "call (store (store ?h' 0 [Fin 7, Fin 8]) 1 [NaN, Fin 1]) ?clo (Fin 1)
          = call ?h' ?clo (Fin 1)"
    by blast
  with m ev len v show ?thesis by blast
qed


end
